theory Spec2Isabelle
  imports Complex_Main "HOL-Library.Log_Nat"
begin

section \<open>SMC Layer engine: data model\<close>

text \<open>
  A shallow embedding of \<^verbatim>\<open>smc_layer_masterpiece.py\<close>. Conventions:
  \<^item> Python floats that carry prices, volumes and confidences are modelled as
    \<^typ>\<open>real\<close> (exact arithmetic); the one place where the source produces a
    not-a-number on purpose (the band of an empty zone) has an explicit \<open>NaN\<close> value.
  \<^item> \<^verbatim>\<open>int(n * 0.55)\<close> and its siblings, which turn a float product into a list
    index, are modelled bit-exactly (IEEE-754 binary64 multiplication, round to nearest
    even, then truncation), see \<open>int_mul\<close>.
  \<^item> List indices are naturals; an index outside the list raises \<open>IndexError\<close>.
  \<^item> Exceptions are values of the type \<open>py_error\<close>.
  \<^item> Evidence strings, which the source formats with f-strings, are kept as structured
    notes carrying the formatted numbers.
\<close>

text \<open>The field \<^verbatim>\<open>o\<close> of the source is named \<open>opn\<close>: \<open>o\<close> is function composition in HOL.\<close>

record Candle =
  ts :: int
  opn :: real
  h :: real
  l :: real
  c :: real
  v :: real

record Swings =
  highs :: "nat list"
  lows :: "nat list"

section \<open>Errors, floats and indices\<close>

text \<open>
  The exceptions the engine can raise. \<open>InsufficientData\<close> is the \<^verbatim>\<open>ValueError\<close> of
  \<^verbatim>\<open>analyze\<close> ("Need at least ~100 candles ..."), \<open>InvalidArgument\<close> the
  \<^verbatim>\<open>ValueError\<close> of \<^verbatim>\<open>sma\<close> ("window must be > 0"); the others are Python's own.
\<close>

datatype py_error =
    InsufficientData
  | InvalidArgument
  | IndexError
  | KeyError
  | TypeError
  | ZeroDivisionError
  | StatisticsError

definition bind_err :: "py_error + 'a \<Rightarrow> ('a \<Rightarrow> py_error + 'b) \<Rightarrow> py_error + 'b" where
  "bind_err r f = (case r of Inl e \<Rightarrow> Inl e | Inr x \<Rightarrow> f x)"

text \<open>A float that may be not-a-number; every comparison with \<open>NaN\<close> is false.\<close>

datatype pyfloat = NaN | Fin real

fun fl_lt :: "pyfloat \<Rightarrow> pyfloat \<Rightarrow> bool" where
  "fl_lt (Fin x) (Fin y) = (x < y)"
| "fl_lt _ _ = False"

fun fl_le :: "pyfloat \<Rightarrow> pyfloat \<Rightarrow> bool" where
  "fl_le (Fin x) (Fin y) = (x \<le> y)"
| "fl_le _ _ = False"

text \<open>\<^verbatim>\<open>xs[i]\<close> for \<open>i \<ge> 0\<close>, and for any integer \<open>i\<close> (a negative index counts from the end).\<close>

definition py_nth :: "'a list \<Rightarrow> nat \<Rightarrow> py_error + 'a" where
  "py_nth xs i = (if i < length xs then Inr (xs ! i) else Inl IndexError)"

definition py_index :: "'a list \<Rightarrow> int \<Rightarrow> py_error + 'a" where
  "py_index xs i =
     (let j = (if i < 0 then int (length xs) + i else i)
      in if 0 \<le> j \<and> j < int (length xs) then Inr (xs ! nat j) else Inl IndexError)"

definition py_div :: "real \<Rightarrow> real \<Rightarrow> py_error + real" where
  "py_div a b = (if b = 0 then Inl ZeroDivisionError else Inr (a / b))"

text \<open>\<^verbatim>\<open>int(x)\<close> of a float: truncation towards zero.\<close>

definition py_int :: "real \<Rightarrow> int" where
  "py_int x = (if 0 \<le> x then \<lfloor>x\<rfloor> else \<lceil>x\<rceil>)"

text \<open>
  \<^verbatim>\<open>int(n * c)\<close> for a list length \<open>n\<close> and a float literal \<open>c = M / 2^k\<close> with
  \<open>2^52 \<le> M < 2^53\<close>: the exact product \<open>n * M\<close> is rounded to 53 significant bits, ties to
  even, and the quotient by \<open>2^k\<close> is truncated. (Exact for \<open>n < 2^53\<close>, where \<open>n\<close> itself
  is a float.) The literals of the source are \<open>0.35 = 6305039478318694 / 2^54\<close>,
  \<open>0.45 = 8106479329266893 / 2^54\<close>, \<open>0.55 = 4953959590107546 / 2^53\<close>,
  \<open>0.70 = 6305039478318694 / 2^53\<close>, \<open>0.75 = 6755399441055744 / 2^53\<close>,
  \<open>0.85 = 7656119366529843 / 2^53\<close> and \<open>0.6 = 5404319552844595 / 2^53\<close>.
\<close>

definition round_half_even :: "nat \<Rightarrow> nat \<Rightarrow> nat" where
  "round_half_even P s =
     (let q = P div 2 ^ s; r = P mod 2 ^ s; half = 2 ^ (s - 1)
      in if half < r \<or> (r = half \<and> odd q) then q + 1 else q)"

definition int_mul :: "nat \<Rightarrow> nat \<Rightarrow> nat \<Rightarrow> nat" where
  "int_mul M k n =
     (let P = n * M; b = floorlog 2 P
      in if b \<le> 53 then P div 2 ^ k
         else (round_half_even P (b - 53) * 2 ^ (b - 53)) div 2 ^ k)"

definition int_mul_035 :: "nat \<Rightarrow> nat" where "int_mul_035 = int_mul 6305039478318694 54"
definition int_mul_045 :: "nat \<Rightarrow> nat" where "int_mul_045 = int_mul 8106479329266893 54"
definition int_mul_055 :: "nat \<Rightarrow> nat" where "int_mul_055 = int_mul 4953959590107546 53"
definition int_mul_070 :: "nat \<Rightarrow> nat" where "int_mul_070 = int_mul 6305039478318694 53"
definition int_mul_075 :: "nat \<Rightarrow> nat" where "int_mul_075 = int_mul 6755399441055744 53"
definition int_mul_085 :: "nat \<Rightarrow> nat" where "int_mul_085 = int_mul 7656119366529843 53"

text \<open>\<^verbatim>\<open>int(d * 0.6)\<close> for an integer \<open>d\<close> of either sign (rounding is symmetric).\<close>

definition int_mul_06 :: "int \<Rightarrow> int" where
  "int_mul_06 d = (if d < 0 then - int (int_mul 5404319552844595 53 (nat (- d)))
                   else int (int_mul 5404319552844595 53 (nat d)))"

text \<open>\<^verbatim>\<open>min(xs)\<close> and \<^verbatim>\<open>max(xs)\<close>; every call site passes a non-empty list.\<close>

definition min_of :: "real list \<Rightarrow> real" where
  "min_of xs = fold min (tl xs) (hd xs)"

definition max_of :: "real list \<Rightarrow> real" where
  "max_of xs = fold max (tl xs) (hd xs)"

section \<open>Quant building blocks\<close>

text \<open>
  \<^verbatim>\<open>sma\<close>: a queue \<open>q\<close> of the last \<open>window\<close> values and their running sum \<open>s\<close>;
  the output is \<open>None\<close> until the queue is full.
\<close>

fun sma_loop :: "nat \<Rightarrow> real list \<Rightarrow> real list \<Rightarrow> real \<Rightarrow> real option list" where
  "sma_loop window [] q s = []"
| "sma_loop window (x # xs) q s =
     (let q1 = q @ [x];
          s1 = s + x;
          s2 = (if length q1 > window then s1 - hd q1 else s1);
          q2 = (if length q1 > window then tl q1 else q1)
      in (if length q2 = window then Some (s2 / real window) else None)
           # sma_loop window xs q2 s2)"

definition sma :: "real list \<Rightarrow> nat \<Rightarrow> py_error + real option list" where
  "sma vals window =
     (if window = 0 then Inl InvalidArgument else Inr (sma_loop window vals [] 0))"

fun true_ranges :: "real \<Rightarrow> Candle list \<Rightarrow> real list" where
  "true_ranges prev_c [] = []"
| "true_ranges prev_c (cd # cds) =
     max (h cd - l cd) (max \<bar>h cd - prev_c\<bar> \<bar>l cd - prev_c\<bar>) # true_ranges (c cd) cds"

definition atr :: "Candle list \<Rightarrow> nat \<Rightarrow> py_error + real option list" where
  "atr cds window = sma (true_ranges (case cds of [] \<Rightarrow> 0 | cd # _ \<Rightarrow> c cd) cds) window"

text \<open>\<^verbatim>\<open>statistics.pstdev\<close>: the population standard deviation; it raises on no data.\<close>

definition pstdev :: "real list \<Rightarrow> py_error + real" where
  "pstdev xs =
     (if xs = [] then Inl StatisticsError
      else let mu = sum_list xs / real (length xs)
           in Inr (sqrt (sum_list (map (\<lambda>x. (x - mu)\<^sup>2) xs) / real (length xs))))"

fun rolling_std_loop :: "real list \<Rightarrow> nat \<Rightarrow> nat list \<Rightarrow> py_error + real option list" where
  "rolling_std_loop vals window [] = Inr []"
| "rolling_std_loop vals window (i # rest) =
     (if i + 1 \<ge> window then
        (case pstdev (take window (drop (i + 1 - window) vals)) of
           Inl e \<Rightarrow> Inl e
         | Inr sd \<Rightarrow>
             (case rolling_std_loop vals window rest of
                Inl e \<Rightarrow> Inl e
              | Inr out \<Rightarrow> Inr (Some sd # out)))
      else
        (case rolling_std_loop vals window rest of
           Inl e \<Rightarrow> Inl e
         | Inr out \<Rightarrow> Inr (None # out)))"

definition rolling_std :: "real list \<Rightarrow> nat \<Rightarrow> py_error + real option list" where
  "rolling_std vals window = rolling_std_loop vals window [0..<length vals]"

text \<open>
  \<^verbatim>\<open>percentile\<close>, for \<open>0 \<le> p \<le> 1\<close> (the engine only asks for \<open>p = 0.30\<close>): the rank
  \<open>k = (len - 1) * p\<close> is taken in exact arithmetic.
\<close>

definition percentile :: "real list \<Rightarrow> real \<Rightarrow> pyfloat" where
  "percentile vals p =
     (if vals = [] then NaN
      else let xs = sort vals;
               k = real (length xs - 1) * p;
               f = nat \<lfloor>k\<rfloor>;
               ce = nat \<lceil>k\<rceil>
           in if f = ce then Fin (xs ! nat (py_int k))
              else Fin (xs ! f + (xs ! ce - xs ! f) * (k - real f)))"

definition clamp :: "real \<Rightarrow> real \<Rightarrow> real \<Rightarrow> real" where
  "clamp x lo hi = max lo (min hi x)"

section \<open>Feature extraction: AVWAP and volume at price\<close>

definition typical :: "Candle \<Rightarrow> real" where
  "typical cd = (h cd + l cd + c cd) / 3"

fun avwap_loop :: "Candle list \<Rightarrow> real \<Rightarrow> real \<Rightarrow> real option list" where
  "avwap_loop [] cum_pv cum_v = []"
| "avwap_loop (cd # cds) cum_pv cum_v =
     (let cum_pv1 = cum_pv + typical cd * v cd;
          cum_v1 = cum_v + v cd
      in (if cum_v1 > 0 then Some (cum_pv1 / cum_v1) else None) # avwap_loop cds cum_pv1 cum_v1)"

definition anchored_vwap :: "Candle list \<Rightarrow> nat \<Rightarrow> real option list" where
  "anchored_vwap cds anchor_idx =
     replicate (min anchor_idx (length cds)) None @ avwap_loop (drop anchor_idx cds) 0 0"

type_synonym node = "real \<times> real \<times> real"

text \<open>The bucket of a typical price: \<^verbatim>\<open>max(0, min(bins - 1, int((tp - lo) / bin_size)))\<close>.\<close>

definition bucket_index :: "real \<Rightarrow> real \<Rightarrow> nat \<Rightarrow> Candle \<Rightarrow> nat" where
  "bucket_index lo bin_size bins cd =
     nat (max 0 (min (int bins - 1) (py_int ((typical cd - lo) / bin_size))))"

fun vols_loop :: "real \<Rightarrow> real \<Rightarrow> nat \<Rightarrow> Candle list \<Rightarrow> real list \<Rightarrow> real list" where
  "vols_loop lo bin_size bins [] vols = vols"
| "vols_loop lo bin_size bins (cd # cds) vols =
     (let idx = bucket_index lo bin_size bins cd
      in vols_loop lo bin_size bins cds (vols[idx := vols ! idx + v cd]))"

definition volume_nodes_proxy :: "Candle list \<Rightarrow> nat \<Rightarrow> py_error + node list" where
  "volume_nodes_proxy cds bins =
     (if cds = [] then Inr []
      else let prices = map typical cds;
               lo = min_of prices;
               hi = max_of prices
           in if hi \<le> lo then Inr [(lo, hi, sum_list (map v cds))]
              else bind_err (py_div (hi - lo) (real bins)) (\<lambda>bin_size.
                     let vols = vols_loop lo bin_size bins cds (replicate bins 0)
                     in Inr (map (\<lambda>i. (lo + real i * bin_size, lo + real (i + 1) * bin_size, vols ! i))
                               [0..<length vols])))"

text \<open>
  \<^verbatim>\<open>sorted(nodes, key=lambda x: x[2], reverse=True)\<close>: a stable sort by descending volume
  (nodes of equal volume keep their order).
\<close>

definition sort_by_vol_desc :: "node list \<Rightarrow> node list" where
  "sort_by_vol_desc nodes = sort_key (\<lambda>n. - snd (snd n)) nodes"

definition top_hvn :: "node list \<Rightarrow> nat \<Rightarrow> node list" where
  "top_hvn nodes k = take k (sort_by_vol_desc nodes)"

section \<open>Feature extraction: swing points\<close>

text \<open>
  \<^verbatim>\<open>find_swings\<close>: the loop \<^verbatim>\<open>for i in range(left, n - right)\<close> appends \<open>i\<close> to
  \<open>highs\<close> when \<^verbatim>\<open>all(hi >= candles[j].h for j in range(i - left, i + right + 1))\<close>
  and to \<open>lows\<close> symmetrically. Every index read lies in \<open>[0, n)\<close>.
\<close>

definition is_hi :: "Candle list \<Rightarrow> nat \<Rightarrow> nat \<Rightarrow> nat \<Rightarrow> bool" where
  "is_hi candles left right i =
     list_all (\<lambda>j. h (candles ! i) \<ge> h (candles ! j)) [i - left..<i + right + 1]"

definition is_lo :: "Candle list \<Rightarrow> nat \<Rightarrow> nat \<Rightarrow> nat \<Rightarrow> bool" where
  "is_lo candles left right i =
     list_all (\<lambda>j. l (candles ! i) \<le> l (candles ! j)) [i - left..<i + right + 1]"

fun swings_loop :: "Candle list \<Rightarrow> nat \<Rightarrow> nat \<Rightarrow> nat list \<Rightarrow> Swings \<Rightarrow> Swings" where
  "swings_loop candles left right [] sw = sw"
| "swings_loop candles left right (i # rest) sw =
     swings_loop candles left right rest
       \<lparr> highs = (if is_hi candles left right i then highs sw @ [i] else highs sw),
         lows = (if is_lo candles left right i then lows sw @ [i] else lows sw) \<rparr>"

definition find_swings :: "Candle list \<Rightarrow> nat \<Rightarrow> nat \<Rightarrow> Swings" where
  "find_swings candles left right =
     swings_loop candles left right [left..<length candles - right] \<lparr> highs = [], lows = [] \<rparr>"

text \<open>A sequence of highs that rises strictly up to index \<open>m\<close> and falls strictly after it.\<close>

definition unimodal_highs :: "Candle list \<Rightarrow> nat \<Rightarrow> bool" where
  "unimodal_highs candles m \<longleftrightarrow>
     m < length candles \<and>
     (\<forall>i. i < m \<longrightarrow> h (candles ! i) < h (candles ! Suc i)) \<and>
     (\<forall>i. m \<le> i \<and> Suc i < length candles \<longrightarrow> h (candles ! Suc i) < h (candles ! i))"

section \<open>Run context and stage results\<close>

text \<open>
  Run parameters are a dictionary of non-negative integers, read with
  \<^verbatim>\<open>int(ctx.params.get(key, default))\<close>.
\<close>

type_synonym params = "string \<Rightarrow> nat option"

definition param_get :: "params \<Rightarrow> string \<Rightarrow> nat \<Rightarrow> nat" where
  "param_get ps k dflt = (case ps k of None \<Rightarrow> dflt | Some x \<Rightarrow> x)"

record StructureOut =
  swings :: Swings
  base_end_idx :: nat
  base_start_idx :: nat
  impulse_start_idx :: nat
  impulse_end_idx :: int

record VolumeOut =
  vap_nodes :: "node list"
  hvn :: "node list"

record CostBasisOut =
  anchors :: "nat list"
  avwaps :: "(nat \<times> real option list) list"

record RegimeOut =
  compression_mask :: "bool list"
  std_p30 :: pyfloat
  atr_p30 :: pyfloat

record AccumDistOut =
  distribution_flags :: "bool list"
  absorption_flags :: "bool list"

record VerifierOut =
  checks_ok :: nat
  checks_need :: nat

text \<open>
  An \<^verbatim>\<open>AgentResult\<close>, and at the same time the trace the orchestrator stores for the
  stage: the output dictionary with the stage's confidence under \<^verbatim>\<open>_confidence\<close>. (The
  evidence strings of the stages are read by nothing and are left out; no built-in stage
  gives warnings.)
\<close>

record 'a AgentResult =
  name :: string
  res_output :: 'a
  res_confidence :: real

record Traces =
  tr_structure :: "StructureOut AgentResult option"
  tr_volume :: "VolumeOut AgentResult option"
  tr_cost_basis :: "CostBasisOut AgentResult option"
  tr_regime :: "RegimeOut AgentResult option"
  tr_accum_dist :: "AccumDistOut AgentResult option"
  tr_verifier :: "VerifierOut AgentResult option"

record GenesisContext =
  ctx_symbol :: string
  ctx_timeframe :: string
  candles :: "Candle list"
  params :: params
  traces :: Traces

text \<open>The evidence of a layer, one constructor per f-string of the resolver.\<close>

datatype ev_note =
    EmptyZone
  | ZoneNote nat nat
  | CentroidNote "real option"
  | FallbackWindow int nat
  | CompressionWindow nat nat nat
  | DistRate real
  | AbsRate real
  | VerifierNote real
  | HvnHint real real

record LayerBand =
  layer :: nat
  price_low :: pyfloat
  price_high :: pyfloat
  entry_start_ts :: "int option"
  entry_end_ts :: "int option"
  cost_basis :: "real option"
  state :: string
  confidence :: real
  evidence :: "ev_note list"

record SMCLayerMap =
  symbol :: string
  timeframe :: string
  start_ts :: int
  end_ts :: int
  layers :: "LayerBand list"
  map_notes :: "string list"
  meta :: params

section \<open>Analysis stages\<close>

subsection \<open>Structure\<close>

text \<open>The inner loop: the first \<open>j\<close> of the range whose close is above the level.\<close>

fun bos_scan :: "real list \<Rightarrow> real \<Rightarrow> nat list \<Rightarrow> nat option" where
  "bos_scan closes level [] = None"
| "bos_scan closes level (j # js) =
     (if closes ! j > level then Some j else bos_scan closes level js)"

text \<open>
  The outer loop over the swing lows: \<^verbatim>\<open>continue\<close> when no swing high follows the low,
  \<^verbatim>\<open>break\<close> as soon as a scan has found a close above the level.
\<close>

fun base_end_loop :: "Candle list \<Rightarrow> real list \<Rightarrow> nat list \<Rightarrow> nat list \<Rightarrow> nat option" where
  "base_end_loop cds closes swing_highs [] = None"
| "base_end_loop cds closes swing_highs (li # rest) =
     (case filter (\<lambda>hi. hi > li) swing_highs of
        [] \<Rightarrow> base_end_loop cds closes swing_highs rest
      | hi0 # _ \<Rightarrow>
          (case bos_scan closes (h (cds ! hi0)) [hi0 + 1..<length closes] of
             Some j \<Rightarrow> Some j
           | None \<Rightarrow> base_end_loop cds closes swing_highs rest))"

definition find_base_end :: "Candle list \<Rightarrow> Swings \<Rightarrow> nat" where
  "find_base_end cds sw =
     (let closes = map c cds;
          base_end = (if lows sw \<noteq> [] \<and> highs sw \<noteq> []
                      then base_end_loop cds closes (highs sw) (lows sw) else None)
      in case base_end of None \<Rightarrow> max 0 (int_mul_035 (length cds)) | Some j \<Rightarrow> j)"

definition StructureAgent_run :: "GenesisContext \<Rightarrow> StructureOut AgentResult" where
  "StructureAgent_run ctx =
     (let sw = find_swings (candles ctx) (param_get (params ctx) ''swing_left'' 3)
                 (param_get (params ctx) ''swing_right'' 3);
          base_end = find_base_end (candles ctx) sw
      in \<lparr> name = ''internal.structure'',
           res_output = \<lparr> swings = sw, base_end_idx = base_end, base_start_idx = 0,
                      impulse_start_idx = base_end,
                      impulse_end_idx = int (length (candles ctx)) - 1 \<rparr>,
           res_confidence = 0.65 \<rparr>)"

subsection \<open>Volume\<close>

definition VolumeAgent_run :: "GenesisContext \<Rightarrow> py_error + VolumeOut AgentResult" where
  "VolumeAgent_run ctx =
     bind_err (volume_nodes_proxy (candles ctx) (param_get (params ctx) ''vap_bins'' 60))
       (\<lambda>nodes. Inr \<lparr> name = ''internal.volume'',
                       res_output = \<lparr> vap_nodes = nodes,
                                  hvn = top_hvn nodes (param_get (params ctx) ''hvn_topk'' 6) \<rparr>,
                       res_confidence = 0.7 \<rparr>)"

subsection \<open>Cost basis\<close>

definition CostBasisAgent_run :: "GenesisContext \<Rightarrow> CostBasisOut AgentResult" where
  "CostBasisAgent_run ctx =
     (let sw = (case tr_structure (traces ctx) of
                  Some r \<Rightarrow> swings (res_output r)
                | None \<Rightarrow> find_swings (candles ctx) 3 3);
          swing_lows = lows sw;
          anch = (if swing_lows \<noteq> []
                  then sort (remdups [swing_lows ! 0,
                                      swing_lows ! (length swing_lows div 2),
                                      last swing_lows])
                  else [0, length (candles ctx) div 2])
      in \<lparr> name = ''internal.cost_basis'',
           res_output = \<lparr> anchors = anch,
                      avwaps = map (\<lambda>a. (a, anchored_vwap (candles ctx) a)) anch \<rparr>,
           res_confidence = 0.66 \<rparr>)"

subsection \<open>Regime\<close>

definition RegimeAgent_run :: "GenesisContext \<Rightarrow> py_error + RegimeOut AgentResult" where
  "RegimeAgent_run ctx =
     bind_err (rolling_std (map c (candles ctx)) (param_get (params ctx) ''vol_window'' 20))
       (\<lambda>rstd.
     bind_err (atr (candles ctx) (param_get (params ctx) ''atr_window'' 14))
       (\<lambda>atrv.
         let std_vals = concat (map (\<lambda>x. case x of None \<Rightarrow> [] | Some y \<Rightarrow> [y]) rstd);
             atr_vals = concat (map (\<lambda>x. case x of None \<Rightarrow> [] | Some y \<Rightarrow> [y]) atrv);
             sp30 = (if std_vals \<noteq> [] then percentile std_vals 0.30 else Fin 0);
             ap30 = (if atr_vals \<noteq> [] then percentile atr_vals 0.30 else Fin 0);
             compression =
               map (\<lambda>i. case (rstd ! i, atrv ! i) of
                           (Some x, Some y) \<Rightarrow> fl_le (Fin x) sp30 \<and> fl_le (Fin y) ap30
                         | _ \<Rightarrow> False)
                   [0..<length (candles ctx)]
         in Inr \<lparr> name = ''internal.regime'',
                  res_output = \<lparr> compression_mask = compression, std_p30 = sp30, atr_p30 = ap30 \<rparr>,
                  res_confidence = 0.6 \<rparr>))"

subsection \<open>Accumulation and distribution\<close>

definition AccumDistAgent_run :: "GenesisContext \<Rightarrow> py_error + AccumDistOut AgentResult" where
  "AccumDistAgent_run ctx =
     (let cds = candles ctx;
          ranges = map (\<lambda>cd. h cd - l cd) cds;
          vols = map v cds
      in bind_err (sma ranges (param_get (params ctx) ''range_window'' 14)) (\<lambda>r_sma.
         bind_err (sma vols (param_get (params ctx) ''vol_sma_window'' 14)) (\<lambda>v_sma.
           let narrow_busy = (\<lambda>i. case (r_sma ! i, v_sma ! i) of
                                     (Some r, Some vs) \<Rightarrow> 0 < i \<and> vols ! i > vs \<and> ranges ! i < r
                                   | _ \<Rightarrow> False)
           in Inr \<lparr> name = ''internal.accum_dist'',
                    res_output = \<lparr> distribution_flags =
                                 map (\<lambda>i. narrow_busy i \<and> c (cds ! i) > c (cds ! (i - 1)))
                                     [0..<length cds],
                               absorption_flags =
                                 map (\<lambda>i. narrow_busy i \<and> c (cds ! i) < c (cds ! (i - 1)))
                                     [0..<length cds] \<rparr>,
                    res_confidence = 0.55 \<rparr>)))"

subsection \<open>Verifier\<close>

definition VerifierAgent_run :: "GenesisContext \<Rightarrow> VerifierOut AgentResult" where
  "VerifierAgent_run ctx =
     (let ok1 = (case tr_structure (traces ctx) of Some _ \<Rightarrow> 1 | None \<Rightarrow> 0);
          ok2 = (case tr_volume (traces ctx) of
                   Some r \<Rightarrow> if hvn (res_output r) \<noteq> [] then 1 else 0 | None \<Rightarrow> 0);
          ok3 = (case tr_cost_basis (traces ctx) of
                   Some r \<Rightarrow> if anchors (res_output r) \<noteq> [] then 1 else 0 | None \<Rightarrow> 0);
          ok = ok1 + ok2 + ok3
      in \<lparr> name = ''internal.verifier'',
           res_output = \<lparr> checks_ok = ok, checks_need = 3 \<rparr>,
           res_confidence = real ok / 3 \<rparr>)"

section \<open>Layer resolver\<close>

type_synonym zone = "nat \<times> nat"

definition segment_by_indices :: "Candle list \<Rightarrow> nat \<Rightarrow> nat \<Rightarrow> Candle list" where
  "segment_by_indices cds i0 i1 =
     (let i1' = min (int (length cds) - 1) (int i1)
      in if i1' < int i0 then [] else take (nat (i1' + 1) - i0) (drop i0 cds))"

fun centroid_loop :: "Candle list \<Rightarrow> real \<Rightarrow> real \<Rightarrow> real \<times> real" where
  "centroid_loop [] num den = (num, den)"
| "centroid_loop (cd # cds) num den =
     centroid_loop cds (num + typical cd * v cd) (den + v cd)"

definition weighted_centroid_price :: "Candle list \<Rightarrow> py_error + real option" where
  "weighted_centroid_price cds =
     (if cds = [] then Inr None
      else case centroid_loop cds 0 0 of
             (num, den) \<Rightarrow>
               if den > 0 then bind_err (py_div num den) (\<lambda>q. Inr (Some q)) else Inr None)"

text \<open>
  \<^verbatim>\<open>_find_longest_true_window\<close>: the loop \<^verbatim>\<open>for i in range(start_idx, end_idx + 1)\<close>
  with the state \<open>best\<close>, \<open>cur_s\<close>, \<open>cur_len\<close>, and the check after the loop.
\<close>

type_synonym window = "nat option \<times> nat option \<times> nat"

function window_loop ::
  "bool list \<Rightarrow> nat \<Rightarrow> nat \<Rightarrow> window \<Rightarrow> nat option \<Rightarrow> nat \<Rightarrow> py_error + (window \<times> nat option \<times> nat)"
where
  "window_loop msk i end_idx best cur_s cur_len =
     (if i \<le> end_idx then
        (case py_nth msk i of
           Inl e \<Rightarrow> Inl e
         | Inr True \<Rightarrow>
             (case cur_s of
                None \<Rightarrow> window_loop msk (i + 1) end_idx best (Some i) 1
              | Some s \<Rightarrow> window_loop msk (i + 1) end_idx best cur_s (cur_len + 1))
         | Inr False \<Rightarrow>
             window_loop msk (i + 1) end_idx
               (if cur_s \<noteq> None \<and> cur_len > snd (snd best) then (cur_s, Some (i - 1), cur_len)
                else best)
               None 0)
      else Inr (best, cur_s, cur_len))"
  by pat_completeness auto
termination
  by (relation "measure (\<lambda>(msk, i, end_idx, best, cur_s, cur_len). Suc end_idx - i)") auto

declare window_loop.simps [simp del]

definition find_longest_true_window :: "bool list \<Rightarrow> nat \<Rightarrow> nat \<Rightarrow> py_error + window" where
  "find_longest_true_window msk start_idx end_idx =
     bind_err (window_loop msk start_idx end_idx (None, None, 0) None 0)
       (\<lambda>(best, cur_s, cur_len).
          Inr (if cur_s \<noteq> None \<and> cur_len > snd (snd best) then (cur_s, Some end_idx, cur_len)
               else best))"

definition band_from_zone ::
  "Candle list \<Rightarrow> zone \<Rightarrow> real \<Rightarrow> py_error + (pyfloat \<times> pyfloat \<times> real option \<times> ev_note list)"
where
  "band_from_zone cds z widen =
     (let seg = segment_by_indices cds (fst z) (snd z)
      in if seg = [] then Inr (NaN, NaN, None, [EmptyZone])
         else let lo = min_of (map l seg);
                  hi = max_of (map h seg);
                  span = hi - lo;
                  lo' = (if widen > 0 then lo - span * widen else lo);
                  hi' = (if widen > 0 then hi + span * widen else hi)
              in bind_err (weighted_centroid_price seg) (\<lambda>cb.
                   Inr (Fin lo', Fin hi', cb,
                        [ZoneNote (fst z) (snd z),
                         CentroidNote (case cb of Some x \<Rightarrow> if x \<noteq> 0 then Some x else None
                                       | None \<Rightarrow> None)])))"

definition entry_window ::
  "Candle list \<Rightarrow> bool list \<Rightarrow> zone \<Rightarrow> py_error + (int option \<times> int option \<times> real \<times> ev_note list)"
where
  "entry_window cds compression z =
     bind_err (find_longest_true_window compression (fst z) (snd z)) (\<lambda>(s, e, ln).
       case s of
         None \<Rightarrow>
           (let ss = int (fst z) + int_mul_06 (int (snd z) - int (fst z));
                ee = snd z
            in bind_err (py_index cds ss) (\<lambda>cs.
               bind_err (py_nth cds ee) (\<lambda>ce.
                 Inr (Some (ts cs), Some (ts ce), 0.35, [FallbackWindow ss ee]))))
       | Some s' \<Rightarrow>
           (let conf = clamp (real ln / real_of_int (max 10 (int (snd z) - int (fst z) + 1)))
                         0.35 0.85
            in bind_err (py_nth cds s') (\<lambda>cs.
               case e of
                 None \<Rightarrow> Inl TypeError
               | Some e' \<Rightarrow>
                   bind_err (py_nth cds e') (\<lambda>ce.
                     Inr (Some (ts cs), Some (ts ce), conf, [CompressionWindow s' e' ln])))))"

text \<open>\<^verbatim>\<open>sum(1 for i in range(z[0], z[1] + 1) if flags[i])\<close>.\<close>

fun count_flags :: "bool list \<Rightarrow> nat list \<Rightarrow> py_error + nat" where
  "count_flags flags [] = Inr 0"
| "count_flags flags (i # rest) =
     (case py_nth flags i of
        Inl e \<Rightarrow> Inl e
      | Inr b \<Rightarrow>
          (case count_flags flags rest of
             Inl e \<Rightarrow> Inl e
           | Inr k \<Rightarrow> Inr (if b then k + 1 else k)))"

definition state_for_zone ::
  "bool list \<Rightarrow> bool list \<Rightarrow> zone \<Rightarrow> py_error + (string \<times> real \<times> ev_note list)"
where
  "state_for_zone dist_flags abs_flags z =
     bind_err (count_flags dist_flags [fst z..<snd z + 1]) (\<lambda>d.
     bind_err (count_flags abs_flags [fst z..<snd z + 1]) (\<lambda>a.
       let total = max 1 (int (snd z) - int (fst z) + 1);
           d_rate = real d / real_of_int total;
           a_rate = real a / real_of_int total;
           ev = [DistRate d_rate, AbsRate a_rate]
       in if d_rate > 0.10 \<and> d_rate > a_rate
            then Inr (''distributing'', clamp (0.55 + d_rate) 0.55 0.85, ev)
          else if a_rate > 0.10 \<and> a_rate > d_rate
            then Inr (''accumulating'', clamp (0.55 + a_rate) 0.55 0.85, ev)
          else Inr (''holding'', 0.55, ev)))"

definition combine_conf :: "real \<Rightarrow> real \<Rightarrow> real \<Rightarrow> real" where
  "combine_conf a b cc = clamp (0.45 * a + 0.35 * b + 0.20 * cc) 0.0 1.0"

text \<open>
  The five zones with their widen factors, in layer order. For an empty candle list the
  source's \<open>n - 1\<close> is \<open>-1\<close>; the entry window of the base zone, computed first, has
  already raised \<open>IndexError\<close> there (lemma \<open>resolve_layers_no_candles\<close>), so the
  truncated subtraction is never observed.
\<close>

definition zones :: "nat \<Rightarrow> nat \<Rightarrow> (zone \<times> real) list" where
  "zones n base_end =
     [((0, base_end), 0.05),
      ((base_end, int_mul_055 n), 0.04),
      ((int_mul_045 n, int_mul_075 n), 0.03),
      ((int_mul_070 n, n - 1), 0.02),
      ((int_mul_085 n, n - 1), 0.01)]"

text \<open>The first error of a list of results, or all the values.\<close>

fun sequence_err :: "(py_error + 'a) list \<Rightarrow> py_error + 'a list" where
  "sequence_err [] = Inr []"
| "sequence_err (r # rs) =
     (case r of
        Inl e \<Rightarrow> Inl e
      | Inr x \<Rightarrow> (case sequence_err rs of Inl e \<Rightarrow> Inl e | Inr xs \<Rightarrow> Inr (x # xs)))"

text \<open>The HVN that overlaps the band of a layer: \<^verbatim>\<open>not (n[1] < low or n[0] > high)\<close>.\<close>

definition overlaps_band :: "LayerBand \<Rightarrow> node \<Rightarrow> bool" where
  "overlaps_band lb n \<longleftrightarrow>
     \<not> (fl_lt (Fin (fst (snd n))) (price_low lb) \<or> fl_lt (price_high lb) (Fin (fst n)))"

definition hvn_hint :: "node list \<Rightarrow> LayerBand \<Rightarrow> LayerBand" where
  "hvn_hint hvn_sorted lb =
     (case filter (overlaps_band lb) hvn_sorted of
        [] \<Rightarrow> lb
      | (b0, b1, vol) # _ \<Rightarrow>
          (let hvn_centroid = (b0 + b1) / 2
           in lb \<lparr> cost_basis := (case cost_basis lb of
                                    None \<Rightarrow> None
                                  | Some cb \<Rightarrow> Some (cb * 0.7 + hvn_centroid * 0.3)),
                   evidence := evidence lb @ [HvnHint hvn_centroid vol] \<rparr>))"

text \<open>
  One layer from the results for its zone. The source writes the five layers out one by
  one; here they are built from the list of zones, in the same order: every band and entry
  window first (layer by layer), then every state, then the five records.
\<close>

definition make_layer ::
  "real \<Rightarrow> nat \<Rightarrow>
   (pyfloat \<times> pyfloat \<times> real option \<times> ev_note list) \<times> (int option \<times> int option \<times> real \<times> ev_note list) \<Rightarrow>
   string \<times> real \<times> ev_note list \<Rightarrow> LayerBand"
where
  "make_layer verifier_conf k bw st =
     (case bw of ((lo, hi, cb, b_ev), (s, e, wconf, w_ev)) \<Rightarrow>
        case st of (st_name, sconf, s_ev) \<Rightarrow>
          \<lparr> layer = k, price_low = lo, price_high = hi,
            entry_start_ts = s, entry_end_ts = e,
            cost_basis = cb, state = st_name,
            confidence = combine_conf wconf sconf verifier_conf,
            evidence = b_ev @ w_ev @ s_ev @ [VerifierNote verifier_conf] \<rparr>)"

text \<open>
  \<^verbatim>\<open>resolve_layers\<close> in two steps: \<open>build_layers\<close> is the function up to and
  including the list \<^verbatim>\<open>layers = [...]\<close> (it also hands on \<open>hvn_sorted\<close>), and
  \<open>resolve_layers\<close> adds the final loop that refines the layers with the HVN hints.
\<close>

definition build_layers :: "GenesisContext \<Rightarrow> py_error + (node list \<times> LayerBand list)" where
  "build_layers ctx =
     (case (tr_structure (traces ctx), tr_volume (traces ctx), tr_cost_basis (traces ctx),
            tr_regime (traces ctx), tr_accum_dist (traces ctx)) of
        (Some structure, Some volume, Some costb, Some regime, Some accd) \<Rightarrow>
          (let cds = candles ctx;
               zs = zones (length cds) (base_end_idx (res_output structure));
               hvn_sorted = sort_by_vol_desc (hvn (res_output volume));
               compression = compression_mask (res_output regime)
           in bind_err (sequence_err
                          (map (\<lambda>(z, widen).
                                  bind_err (band_from_zone cds z widen) (\<lambda>b.
                                  bind_err (entry_window cds compression z) (\<lambda>w. Inr (b, w))))
                               zs)) (\<lambda>bws.
              bind_err (sequence_err
                          (map (\<lambda>(z, widen).
                                  state_for_zone (distribution_flags (res_output accd))
                                    (absorption_flags (res_output accd)) z)
                               zs)) (\<lambda>sts.
                let verifier_conf = (case tr_verifier (traces ctx) of
                                       None \<Rightarrow> 0.6 | Some r \<Rightarrow> res_confidence r)
                in Inr (hvn_sorted,
                        map (\<lambda>(k, bw, st). make_layer verifier_conf k bw st)
                          (zip [1..<6] (zip bws sts))))))
      | _ \<Rightarrow> Inl KeyError)"

definition resolve_layers :: "GenesisContext \<Rightarrow> py_error + LayerBand list" where
  "resolve_layers ctx =
     bind_err (build_layers ctx) (\<lambda>(hvn_sorted, lbs).
       Inr (if hvn_sorted \<noteq> [] then map (hvn_hint hvn_sorted) lbs else lbs))"

section \<open>Orchestrator\<close>

text \<open>
  \<^verbatim>\<open>SMCLayerEngine.analyze\<close> with the default, empty registry: every stage is the
  built-in one, run in the fixed order, each result stored in the traces before the next
  stage runs.
\<close>

definition empty_traces :: Traces where
  "empty_traces = \<lparr> tr_structure = None, tr_volume = None, tr_cost_basis = None,
                     tr_regime = None, tr_accum_dist = None, tr_verifier = None \<rparr>"

definition run_agents :: "GenesisContext \<Rightarrow> py_error + GenesisContext" where
  "run_agents ctx0 =
     (let ctx1 = ctx0 \<lparr> traces := (traces ctx0) \<lparr> tr_structure := Some (StructureAgent_run ctx0) \<rparr> \<rparr>
      in bind_err (VolumeAgent_run ctx1) (\<lambda>vol.
         let ctx2 = ctx1 \<lparr> traces := (traces ctx1) \<lparr> tr_volume := Some vol \<rparr> \<rparr>;
             ctx3 = ctx2 \<lparr> traces := (traces ctx2) \<lparr> tr_cost_basis := Some (CostBasisAgent_run ctx2) \<rparr> \<rparr>
         in bind_err (RegimeAgent_run ctx3) (\<lambda>reg.
            let ctx4 = ctx3 \<lparr> traces := (traces ctx3) \<lparr> tr_regime := Some reg \<rparr> \<rparr>
            in bind_err (AccumDistAgent_run ctx4) (\<lambda>acc.
               let ctx5 = ctx4 \<lparr> traces := (traces ctx4) \<lparr> tr_accum_dist := Some acc \<rparr> \<rparr>
               in Inr (ctx5 \<lparr> traces := (traces ctx5) \<lparr> tr_verifier := Some (VerifierAgent_run ctx5) \<rparr> \<rparr>)))))"

definition analyze ::
  "string \<Rightarrow> string \<Rightarrow> Candle list \<Rightarrow> params option \<Rightarrow> py_error + SMCLayerMap"
where
  "analyze sy tf cds ps =
     (if cds = [] \<or> length cds < 100 then Inl InsufficientData
      else bind_err (run_agents \<lparr> ctx_symbol = sy, ctx_timeframe = tf, candles = cds,
                                 params = (case ps of None \<Rightarrow> Map.empty | Some p \<Rightarrow> p),
                                 traces = empty_traces \<rparr>) (\<lambda>ctx.
           bind_err (resolve_layers ctx) (\<lambda>lbs.
             Inr \<lparr> symbol = sy, timeframe = tf,
                   start_ts = ts (hd cds), end_ts = ts (last cds),
                   layers = lbs,
                   map_notes = [''This is a cost-basis proxy inference, not true holder cost basis.'',
                                ''Confidence is ensemble of regime window + acc/dist signals + verifier checks.''],
                   meta = params ctx \<rparr>)))"

section \<open>Swing detector: properties\<close>

lemma swings_loop_highs:
  "highs (swings_loop cs left right idxs sw) = highs sw @ filter (is_hi cs left right) idxs"
  by (induction idxs arbitrary: sw) auto

lemma swings_loop_lows:
  "lows (swings_loop cs left right idxs sw) = lows sw @ filter (is_lo cs left right) idxs"
  by (induction idxs arbitrary: sw) auto

lemma find_swings_highs:
  "highs (find_swings cs left right) = filter (is_hi cs left right) [left..<length cs - right]"
  by (simp add: find_swings_def swings_loop_highs)

lemma find_swings_lows:
  "lows (find_swings cs left right) = filter (is_lo cs left right) [left..<length cs - right]"
  by (simp add: find_swings_def swings_loop_lows)

lemma is_hi_iff:
  "is_hi cs left right i \<longleftrightarrow> (\<forall>j. i - left \<le> j \<and> j \<le> i + right \<longrightarrow> h (cs ! j) \<le> h (cs ! i))"
  by (auto simp: is_hi_def list_all_iff)

lemma is_lo_iff:
  "is_lo cs left right i \<longleftrightarrow> (\<forall>j. i - left \<le> j \<and> j \<le> i + right \<longrightarrow> l (cs ! i) \<le> l (cs ! j))"
  by (auto simp: is_lo_def list_all_iff)

lemma unimodal_rise:
  assumes "unimodal_highs cs m" "i < j" "j \<le> m"
  shows "h (cs ! i) < h (cs ! j)"
  using assms(2,3)
proof (induction j)
  case 0
  then show ?case by simp
next
  case (Suc j)
  from assms(1) Suc.prems have step: "h (cs ! j) < h (cs ! Suc j)"
    by (simp add: unimodal_highs_def)
  show ?case
  proof (cases "i = j")
    case True
    with step show ?thesis by simp
  next
    case False
    with Suc have "h (cs ! i) < h (cs ! j)" by simp
    with step show ?thesis by simp
  qed
qed

lemma unimodal_fall:
  assumes "unimodal_highs cs m" "m \<le> i" "i < j" "j < length cs"
  shows "h (cs ! j) < h (cs ! i)"
  using assms(3,4)
proof (induction j)
  case 0
  then show ?case by simp
next
  case (Suc j)
  from assms(1,2) Suc.prems have step: "h (cs ! Suc j) < h (cs ! j)"
    by (simp add: unimodal_highs_def)
  show ?case
  proof (cases "i = j")
    case True
    with step show ?thesis by simp
  next
    case False
    with Suc have "h (cs ! j) < h (cs ! i)" by simp
    with step show ?thesis by simp
  qed
qed

lemma unimodal_is_hi_iff:
  assumes u: "unimodal_highs cs m" and i: "2 \<le> i" "i + 2 < length cs"
  shows "is_hi cs 2 2 i \<longleftrightarrow> i = m"
proof
  assume hi: "is_hi cs 2 2 i"
  show "i = m"
  proof (rule ccontr)
    assume ne: "i \<noteq> m"
    show False
    proof (cases "i < m")
      case True
      then have "h (cs ! i) < h (cs ! Suc i)"
        using unimodal_rise [OF u, of i "Suc i"] by simp
      moreover have "h (cs ! Suc i) \<le> h (cs ! i)"
        using hi by (simp add: is_hi_iff)
      ultimately show False by simp
    next
      case False
      with ne have "m \<le> i - 1" "i - 1 < i" using i by simp_all
      then have "h (cs ! i) < h (cs ! (i - 1))"
        using unimodal_fall [OF u, of "i - 1" i] i by simp
      moreover have "h (cs ! (i - 1)) \<le> h (cs ! i)"
      proof -
        have "i - 2 \<le> i - 1 \<and> i - 1 \<le> i + 2" by arith
        with hi show ?thesis unfolding is_hi_iff by blast
      qed
      ultimately show False by simp
    qed
  qed
next
  assume eq: "i = m"
  show "is_hi cs 2 2 i"
    unfolding is_hi_iff
  proof (intro allI impI)
    fix j
    assume j: "i - 2 \<le> j \<and> j \<le> i + 2"
    consider "j < m" | "j = m" | "m < j" by linarith
    then show "h (cs ! j) \<le> h (cs ! i)"
    proof cases
      case 1
      then show ?thesis using unimodal_rise [OF u, of j m] eq by simp
    next
      case 2
      then show ?thesis using eq by simp
    next
      case 3
      then show ?thesis using unimodal_fall [OF u, of m j] eq j i by simp
    qed
  qed
qed

lemma unimodal_filter:
  assumes u: "unimodal_highs cs m"
  shows "filter (is_hi cs 2 2) [2..<length cs - 2] =
           (if 2 \<le> m \<and> m + 2 < length cs then [m] else [])"
proof -
  have "filter (is_hi cs 2 2) [2..<length cs - 2] = filter (\<lambda>i. i = m) [2..<length cs - 2]"
    by (rule filter_cong) (auto simp: unimodal_is_hi_iff [OF u])
  also have "\<dots> = (if 2 \<le> m \<and> m + 2 < length cs then [m] else [])"
  proof (cases "2 \<le> m \<and> m + 2 < length cs")
    case True
    then have "[2..<length cs - 2] = [2..<m] @ m # [Suc m..<length cs - 2]"
      by (metis less_diff_conv upt_conv_Cons upt_add_eq_append le_Suc_ex less_imp_le_nat)
    then show ?thesis using True by (simp add: filter_empty_conv)
  next
    case False
    then show ?thesis by (auto simp: filter_empty_conv)
  qed
  finally show ?thesis .
qed

text \<open>
  Claim C7. Index \<open>i\<close> is reported as a swing high exactly when it is at least \<open>left\<close>
  from the start and at least \<open>right\<close> from the end and \<open>high[i]\<close> is the maximum over
  the closed window \<open>[i - left, i + right]\<close>; swing lows follow the symmetric minimum
  rule. Hence, with \<open>left = right = 2\<close> and strictly unimodal highs peaking at \<open>m\<close>, no
  index other than \<open>m\<close> is reported, and \<open>m\<close> is reported when it is not a boundary index.
\<close>

theorem find_swings_spec:
  "(i \<in> set (highs (find_swings cs left right)) \<longleftrightarrow>
      left \<le> i \<and> i + right < length cs \<and>
      (\<forall>j. i - left \<le> j \<and> j \<le> i + right \<longrightarrow> h (cs ! j) \<le> h (cs ! i))) \<and>
   (i \<in> set (lows (find_swings cs left right)) \<longleftrightarrow>
      left \<le> i \<and> i + right < length cs \<and>
      (\<forall>j. i - left \<le> j \<and> j \<le> i + right \<longrightarrow> l (cs ! i) \<le> l (cs ! j))) \<and>
   (unimodal_highs cs m \<longrightarrow>
      highs (find_swings cs 2 2) = (if 2 \<le> m \<and> m + 2 < length cs then [m] else []))"
proof (intro conjI impI)
  show "i \<in> set (highs (find_swings cs left right)) \<longleftrightarrow>
      left \<le> i \<and> i + right < length cs \<and>
      (\<forall>j. i - left \<le> j \<and> j \<le> i + right \<longrightarrow> h (cs ! j) \<le> h (cs ! i))"
    by (auto simp: find_swings_highs is_hi_iff)
  show "i \<in> set (lows (find_swings cs left right)) \<longleftrightarrow>
      left \<le> i \<and> i + right < length cs \<and>
      (\<forall>j. i - left \<le> j \<and> j \<le> i + right \<longrightarrow> l (cs ! i) \<le> l (cs ! j))"
    by (auto simp: find_swings_lows is_lo_iff)
next
  assume "unimodal_highs cs m"
  then show "highs (find_swings cs 2 2) = (if 2 \<le> m \<and> m + 2 < length cs then [m] else [])"
    by (simp add: find_swings_highs unimodal_filter)
qed

text \<open>
  The theorem at five candles with highs \<open>1, 2, 3, 2, 1\<close>: they are unimodal with the peak
  at index 2, which is inside the range the loop visits, so it is the one swing high.
\<close>

definition peak5 :: "Candle list" where
  "peak5 = map (\<lambda>(t, x). \<lparr> ts = t, opn = x, h = x, l = x - 1, c = x, v = 1 \<rparr>)
             [(0, 1), (1, 2), (2, 3), (3, 2), (4, 1)]"

theorem find_swings_spec_witness:
  "unimodal_highs peak5 2 \<and> highs (find_swings peak5 2 2) = [2] \<and>
   2 \<in> set (highs (find_swings peak5 2 2))"
proof -
  have u: "unimodal_highs peak5 2"
    by (auto simp: unimodal_highs_def peak5_def less_Suc_eq nth_Cons')
  from find_swings_spec [of 2 peak5 2 2 2] u
  show ?thesis by (simp add: peak5_def)
qed

section \<open>Structure stage: the base-end search\<close>










lemma bos_scan_upt:
  "bos_scan cl lev [a..<n] =
     (if \<exists>j. a \<le> j \<and> j < n \<and> lev < cl ! j
      then Some (LEAST j. a \<le> j \<and> j < n \<and> lev < cl ! j) else None)"
proof (induction "n - a" arbitrary: a)
  case 0
  then show ?case by auto
next
  case (Suc k)
  then have lt: "a < n" by simp
  then have up: "[a..<n] = a # [Suc a..<n]" by (simp add: upt_conv_Cons)
  show ?case
  proof (cases "lev < cl ! a")
    case True
    then have "(LEAST j. a \<le> j \<and> j < n \<and> lev < cl ! j) = a"
      using lt by (intro Least_equality) auto
    with True lt up show ?thesis by auto
  next
    case False
    have eq: "(\<lambda>j. a \<le> j \<and> j < n \<and> lev < cl ! j) = (\<lambda>j. Suc a \<le> j \<and> j < n \<and> lev < cl ! j)"
    proof (rule ext)
      fix j show "(a \<le> j \<and> j < n \<and> lev < cl ! j) = (Suc a \<le> j \<and> j < n \<and> lev < cl ! j)"
        using False by (cases "j = a") auto
    qed
    have "bos_scan cl lev [a..<n] = bos_scan cl lev [Suc a..<n]" using up False by simp
    also have "\<dots> = (if \<exists>j. Suc a \<le> j \<and> j < n \<and> lev < cl ! j
      then Some (LEAST j. Suc a \<le> j \<and> j < n \<and> lev < cl ! j) else None)"
      using Suc(2) by (intro Suc(1)) simp
    finally show ?thesis by (simp only: eq)
  qed
qed
















section \<open>Volume at price: every candle in one bucket\<close>

















section \<open>Layer resolver: structure of the result\<close>

lemma bind_err_simps [simp]:
  "bind_err (Inr x) f = f x"
  "bind_err (Inl e) f = Inl e"
  by (simp_all add: bind_err_def)

lemma bind_err_eq_Inr: "bind_err r f = Inr y \<longleftrightarrow> (\<exists>x. r = Inr x \<and> f x = Inr y)"
  by (cases r) simp_all

lemma sequence_err_map_Inr: "sequence_err (map Inr xs) = Inr xs"
  by (induction xs) simp_all

lemma sequence_err_InrD: "sequence_err rs = Inr xs \<Longrightarrow> rs = map Inr xs"
proof (induction rs arbitrary: xs)
  case Nil
  then show ?case by simp
next
  case (Cons r rs)
  from Cons.prems obtain x ys where r: "r = Inr x" and ys: "sequence_err rs = Inr ys"
    and xs: "xs = x # ys"
    by (auto split: sum.splits)
  from Cons.IH [OF ys] r xs show ?case by simp
qed

lemma sequence_err_map_nth:
  assumes "sequence_err (map f zs) = Inr xs"
  shows "length xs = length zs" and "k < length zs \<Longrightarrow> f (zs ! k) = Inr (xs ! k)"
proof -
  from assms have eq: "map f zs = map Inr xs" by (rule sequence_err_InrD)
  then show len: "length xs = length zs" by (metis length_map)
  assume k: "k < length zs"
  then have "f (zs ! k) = map f zs ! k" by simp
  also have "\<dots> = map Inr xs ! k" by (simp only: eq)
  also have "\<dots> = Inr (xs ! k)" using k len by simp
  finally show "f (zs ! k) = Inr (xs ! k)" .
qed

lemma sequence_err_total:
  assumes "\<And>z. z \<in> set zs \<Longrightarrow> \<exists>x. f z = Inr x"
  shows "\<exists>xs. sequence_err (map f zs) = Inr xs"
  using assms
proof (induction zs)
  case Nil
  then show ?case by simp
next
  case (Cons z zs)
  then obtain x xs where "f z = Inr x" "sequence_err (map f zs) = Inr xs" by fastforce
  then show ?case by simp
qed

lemma length_zones [simp]: "length (zones n b) = 5"
  by (simp add: zones_def)

subsection \<open>The centroid never divides by zero\<close>

lemma centroid_loop_den:
  "snd (centroid_loop cds num den) = den + sum_list (map v cds)"
  by (induction cds arbitrary: num den) simp_all

lemma weighted_centroid_price_total: "\<exists>r. weighted_centroid_price cds = Inr r"
  by (auto simp: weighted_centroid_price_def py_div_def split: prod.splits)

lemma weighted_centroid_price_zero_volume:
  assumes "sum_list (map v cds) \<le> 0"
  shows "weighted_centroid_price cds = Inr None"
proof -
  obtain num den where cl: "centroid_loop cds 0 0 = (num, den)" by (cases "centroid_loop cds 0 0")
  with centroid_loop_den [of cds 0 0] have "den = sum_list (map v cds)" by simp
  with assms cl show ?thesis by (simp add: weighted_centroid_price_def)
qed

subsection \<open>Bands\<close>

lemma band_from_zone_total: "\<exists>b. band_from_zone cds z wd = Inr b"
proof -
  obtain r where "weighted_centroid_price (segment_by_indices cds (fst z) (snd z)) = Inr r"
    using weighted_centroid_price_total by blast
  then show ?thesis by (simp add: band_from_zone_def Let_def)
qed

lemma band_from_zone_empty:
  "segment_by_indices cds (fst z) (snd z) = [] \<Longrightarrow>
     band_from_zone cds z wd = Inr (NaN, NaN, None, [EmptyZone])"
  by (simp add: band_from_zone_def)

lemma band_from_zone_cases:
  assumes "band_from_zone cds z wd = Inr (lo, hi, cb, ev)"
  defines "seg \<equiv> segment_by_indices cds (fst z) (snd z)"
  shows "(seg = [] \<and> lo = NaN \<and> hi = NaN \<and> cb = None) \<or>
         (seg \<noteq> [] \<and> weighted_centroid_price seg = Inr cb \<and>
          lo = Fin (if wd > 0 then min_of (map l seg) - (max_of (map h seg) - min_of (map l seg)) * wd
                    else min_of (map l seg)) \<and>
          hi = Fin (if wd > 0 then max_of (map h seg) + (max_of (map h seg) - min_of (map l seg)) * wd
                    else max_of (map h seg)))"
  using assms(1) unfolding seg_def band_from_zone_def Let_def
  by (auto simp: bind_err_eq_Inr split: if_splits)

subsection \<open>The HVN hint\<close>

lemma hvn_hint_Nil [simp]: "hvn_hint [] lb = lb"
  by (simp add: hvn_hint_def)

lemma map_hvn_hint_Nil [simp]: "map (hvn_hint []) lbs = lbs"
  by (induction lbs) simp_all

lemma hvn_hint_frame:
  "layer (hvn_hint hs lb) = layer lb"
  "price_low (hvn_hint hs lb) = price_low lb"
  "price_high (hvn_hint hs lb) = price_high lb"
  "entry_start_ts (hvn_hint hs lb) = entry_start_ts lb"
  "entry_end_ts (hvn_hint hs lb) = entry_end_ts lb"
  "state (hvn_hint hs lb) = state lb"
  "confidence (hvn_hint hs lb) = confidence lb"
  "cost_basis (hvn_hint hs lb) = None \<longleftrightarrow> cost_basis lb = None"
  by (auto simp: hvn_hint_def Let_def split: list.splits option.splits)

lemma resolve_layers_eq:
  "resolve_layers ctx = Inr ls \<longleftrightarrow>
     (\<exists>hs lbs. build_layers ctx = Inr (hs, lbs) \<and> ls = map (hvn_hint hs) lbs)"
proof (cases "build_layers ctx")
  case (Inl e)
  then show ?thesis by (simp add: resolve_layers_def)
next
  case (Inr r)
  obtain hs lbs where r: "r = (hs, lbs)" by (cases r)
  show ?thesis
  proof (cases "hs = []")
    case True
    with Inr r show ?thesis by (auto simp: resolve_layers_def)
  next
    case False
    with Inr r show ?thesis by (auto simp: resolve_layers_def)
  qed
qed

subsection \<open>The five layers\<close>

lemma build_layers_nth:
  assumes "build_layers ctx = Inr (hs, lbs)"
  shows "\<exists>strc volume costb regime accd.
           tr_structure (traces ctx) = Some strc \<and> tr_volume (traces ctx) = Some volume \<and>
           tr_cost_basis (traces ctx) = Some costb \<and>
           tr_regime (traces ctx) = Some regime \<and> tr_accum_dist (traces ctx) = Some accd \<and>
           hs = sort_by_vol_desc (hvn (res_output volume)) \<and>
           length lbs = 5 \<and>
           (\<forall>k < 5. \<exists>b w st.
              band_from_zone (candles ctx)
                (fst (zones (length (candles ctx)) (base_end_idx (res_output strc)) ! k))
                (snd (zones (length (candles ctx)) (base_end_idx (res_output strc)) ! k)) = Inr b \<and>
              entry_window (candles ctx) (compression_mask (res_output regime))
                (fst (zones (length (candles ctx)) (base_end_idx (res_output strc)) ! k)) = Inr w \<and>
              state_for_zone (distribution_flags (res_output accd)) (absorption_flags (res_output accd))
                (fst (zones (length (candles ctx)) (base_end_idx (res_output strc)) ! k)) = Inr st \<and>
              lbs ! k = make_layer (case tr_verifier (traces ctx) of
                                       None \<Rightarrow> 0.6 | Some r \<Rightarrow> res_confidence r) (k + 1) (b, w) st)"
proof -
  from assms obtain strc volume costb regime accd where tr:
    "tr_structure (traces ctx) = Some strc" "tr_volume (traces ctx) = Some volume"
    "tr_cost_basis (traces ctx) = Some costb"
    "tr_regime (traces ctx) = Some regime" "tr_accum_dist (traces ctx) = Some accd"
    by (auto simp: build_layers_def split: option.splits)
  let ?cds = "candles ctx"
  let ?zs = "zones (length ?cds) (base_end_idx (res_output strc))"
  let ?bw = "\<lambda>(z, widen). bind_err (band_from_zone ?cds z widen) (\<lambda>b.
               bind_err (entry_window ?cds (compression_mask (res_output regime)) z) (\<lambda>w. Inr (b, w)))"
  let ?st = "\<lambda>(z, widen :: real). state_for_zone (distribution_flags (res_output accd))
               (absorption_flags (res_output accd)) z"
  let ?vc = "case tr_verifier (traces ctx) of None \<Rightarrow> 0.6 | Some r \<Rightarrow> res_confidence r"
  from assms tr obtain bws sts where
    bws: "sequence_err (map ?bw ?zs) = Inr bws" and
    sts: "sequence_err (map ?st ?zs) = Inr sts" and
    hs: "hs = sort_by_vol_desc (hvn (res_output volume))" and
    lbs: "lbs = map (\<lambda>(k, bw, st). make_layer ?vc k bw st) (zip [1..<6] (zip bws sts))"
    by (auto simp: build_layers_def Let_def bind_err_eq_Inr)
  have lb: "length bws = 5" using sequence_err_map_nth(1) [OF bws] by simp
  have ls: "length sts = 5" using sequence_err_map_nth(1) [OF sts] by simp
  have len: "length lbs = 5" using lb ls lbs by simp
  have each: "\<exists>b w st.
      band_from_zone ?cds (fst (?zs ! k)) (snd (?zs ! k)) = Inr b \<and>
      entry_window ?cds (compression_mask (res_output regime)) (fst (?zs ! k)) = Inr w \<and>
      state_for_zone (distribution_flags (res_output accd)) (absorption_flags (res_output accd))
        (fst (?zs ! k)) = Inr st \<and>
      lbs ! k = make_layer ?vc (k + 1) (b, w) st" if k: "k < 5" for k
  proof -
    have "?bw (?zs ! k) = Inr (bws ! k)" using sequence_err_map_nth(2) [OF bws] k by simp
    then obtain b w where b: "band_from_zone ?cds (fst (?zs ! k)) (snd (?zs ! k)) = Inr b"
      and w: "entry_window ?cds (compression_mask (res_output regime)) (fst (?zs ! k)) = Inr w"
      and bw: "bws ! k = (b, w)"
      by (auto simp: bind_err_eq_Inr split: prod.splits)
    have st: "state_for_zone (distribution_flags (res_output accd)) (absorption_flags (res_output accd))
        (fst (?zs ! k)) = Inr (sts ! k)"
      using sequence_err_map_nth(2) [OF sts, of k] k by (simp add: case_prod_unfold)
    have "[1..<6] ! k = k + 1" using k by simp
    then have "lbs ! k = make_layer ?vc (k + 1) (b, w) (sts ! k)"
      using k lb ls bw unfolding lbs by simp
    with b w st show ?thesis by blast
  qed
  from tr hs len each show ?thesis by blast
qed

section \<open>Bounds for the float products\<close>

lemma round_half_even_le: "round_half_even P s \<le> P div 2 ^ s + 1"
  by (simp add: round_half_even_def Let_def)

lemma scaled_le_aux:
  fixes R P t cc :: nat
  assumes "R \<le> P + t" "t * cc \<le> P"
  shows "R * cc \<le> P * (cc + 1)"
proof -
  have "R * cc \<le> (P + t) * cc" using assms(1) by (rule mult_le_mono1)
  also have "\<dots> = P * cc + t * cc" by (simp add: algebra_simps)
  also have "\<dots> \<le> P * cc + P" using assms(2) by simp
  also have "\<dots> = P * (cc + 1)" by (simp add: algebra_simps)
  finally show ?thesis .
qed

lemma int_mul_scaled_le:
  assumes "53 < floorlog 2 (n * M)"
  defines "s \<equiv> floorlog 2 (n * M) - 53"
  shows "round_half_even (n * M) s * 2 ^ s * 2 ^ 52 \<le> n * M * (2 ^ 52 + 1)"
proof -
  let ?P = "n * M"
  have pos: "0 < ?P" using assms(1) by (auto simp: floorlog_def split: if_splits)
  have "round_half_even ?P s * 2 ^ s \<le> (?P div 2 ^ s + 1) * 2 ^ s"
    using round_half_even_le by (rule mult_le_mono1)
  also have "\<dots> = ?P div 2 ^ s * 2 ^ s + 2 ^ s" by (simp add: algebra_simps)
  also have "\<dots> \<le> ?P + 2 ^ s" by (simp add: div_times_less_eq_dividend)
  finally have r: "round_half_even ?P s * 2 ^ s \<le> ?P + 2 ^ s" .
  have e: "floorlog 2 ?P - 1 = s + 52" using assms(1) unfolding s_def by simp
  have "(2::nat) ^ s * 2 ^ 52 = 2 ^ (s + 52)" by (simp only: power_add)
  also have "\<dots> = 2 ^ (floorlog 2 ?P - 1)" by (simp only: e)
  also have "\<dots> \<le> ?P" using floorlog_bounds [of ?P 2] pos by simp
  finally have u: "(2::nat) ^ s * 2 ^ 52 \<le> ?P" .
  from r u show ?thesis by (rule scaled_le_aux)
qed

lemma int_mul_less:
  assumes n: "0 < n" and M: "M * (2 ^ 52 + 1) < 2 ^ k * 2 ^ 52"
  shows "int_mul M k n < n"
proof (cases "floorlog 2 (n * M) \<le> 53")
  case True
  have "M < 2 ^ k"
  proof (rule ccontr)
    assume "\<not> M < 2 ^ k"
    then have "2 ^ k * 2 ^ 52 \<le> M * 2 ^ 52" by simp
    also have "\<dots> \<le> M * (2 ^ 52 + 1)" by simp
    finally show False using M by simp
  qed
  then have "n * M < n * 2 ^ k" using n by simp
  then have "n * M div 2 ^ k < n" by (rule less_mult_imp_div_less)
  with True show ?thesis by (simp add: int_mul_def Let_def)
next
  case False
  then have big: "53 < floorlog 2 (n * M)" by simp
  let ?s = "floorlog 2 (n * M) - 53"
  let ?R = "round_half_even (n * M) ?s * 2 ^ ?s"
  have "?R * 2 ^ 52 \<le> n * M * (2 ^ 52 + 1)" using int_mul_scaled_le [OF big] by simp
  also have "\<dots> = n * (M * (2 ^ 52 + 1))" by (simp add: algebra_simps)
  also have "\<dots> < n * (2 ^ k * 2 ^ 52)" using n M by simp
  also have "\<dots> = (n * 2 ^ k) * 2 ^ 52" by simp
  finally have "?R < n * 2 ^ k" by simp
  then have "?R div 2 ^ k < n" by (rule less_mult_imp_div_less)
  with False show ?thesis by (simp add: int_mul_def Let_def)
qed

lemma int_mul_zero [simp]: "int_mul M k 0 = 0"
  by (simp add: int_mul_def floorlog_def)

lemma int_mul_consts_less:
  assumes "0 < n"
  shows "int_mul_035 n < n" "int_mul_045 n < n" "int_mul_055 n < n"
    "int_mul_070 n < n" "int_mul_075 n < n" "int_mul_085 n < n"
  unfolding int_mul_035_def int_mul_045_def int_mul_055_def int_mul_070_def int_mul_075_def
    int_mul_085_def
  by (rule int_mul_less [OF assms], simp)+

lemma int_mul_06_bounds:
  "0 \<le> d \<Longrightarrow> 0 \<le> int_mul_06 d \<and> int_mul_06 d \<le> d"
  "d < 0 \<Longrightarrow> d < int_mul_06 d \<and> int_mul_06 d \<le> 0"
proof -
  have less: "int_mul 5404319552844595 53 m < m" if "0 < m" for m
    by (rule int_mul_less [OF that]) simp
  show "0 \<le> int_mul_06 d \<and> int_mul_06 d \<le> d" if "0 \<le> d"
  proof (cases "d = 0")
    case True
    then show ?thesis by (simp add: int_mul_06_def)
  next
    case False
    with that less [of "nat d"] show ?thesis by (simp add: int_mul_06_def)
  qed
  show "d < int_mul_06 d \<and> int_mul_06 d \<le> 0" if "d < 0"
    using that less [of "nat (- d)"] by (simp add: int_mul_06_def)
qed

lemma floorlog_numeral: "floorlog 2 (numeral w) = floorlog 2 (numeral w div 2) + 1"
  by (subst compute_floorlog) simp

lemma floorlog_one: "floorlog 2 (Suc 0) = 1" "floorlog 2 1 = 1"
  by (simp_all add: floorlog_def)

lemmas int_mul_eval = int_mul_035_def int_mul_045_def int_mul_055_def int_mul_070_def
  int_mul_075_def int_mul_085_def int_mul_06_def int_mul_def round_half_even_def Let_def
  floorlog_numeral floorlog_one

lemma int_mul_035_180: "int_mul_035 180 = 62"
  by (simp add: int_mul_eval)

section \<open>Entry windows: the longest compressed run\<close>

text \<open>
  A run is a non-empty index range on which the mask is true throughout. A window
  \<open>(s, e, len)\<close> is the longest run below \<open>lm0\<close> that starts at or after \<open>s0\<close>, the first
  such in case of a tie; it is \<open>(None, None, 0)\<close> when there is no run at all.
\<close>

definition is_run :: "bool list \<Rightarrow> nat \<Rightarrow> nat \<Rightarrow> bool" where
  "is_run msk a b \<longleftrightarrow> a \<le> b \<and> (\<forall>j. a \<le> j \<and> j \<le> b \<longrightarrow> msk ! j)"

definition best_ok :: "bool list \<Rightarrow> nat \<Rightarrow> nat \<Rightarrow> window \<Rightarrow> bool" where
  "best_ok msk s0 lm0 w =
     (case w of
        (None, None, wl) \<Rightarrow> wl = 0 \<and> (\<forall>a b. s0 \<le> a \<and> b < lm0 \<longrightarrow> \<not> is_run msk a b)
      | (Some a, Some b, wl) \<Rightarrow>
          wl = b - a + 1 \<and> s0 \<le> a \<and> b < lm0 \<and> is_run msk a b \<and>
          (\<forall>a' b'. s0 \<le> a' \<and> b' < lm0 \<and> is_run msk a' b' \<longrightarrow>
             b' - a' + 1 \<le> wl \<and> (b' - a' + 1 = wl \<longrightarrow> a \<le> a'))
      | _ \<Rightarrow> False)"

text \<open>The loop state before index \<open>i\<close> is read: the run in progress, if any.\<close>

definition cur_ok :: "bool list \<Rightarrow> nat \<Rightarrow> nat \<Rightarrow> nat option \<Rightarrow> nat \<Rightarrow> bool" where
  "cur_ok msk s0 i cur_s cur_len =
     (case cur_s of
        None \<Rightarrow> cur_len = 0 \<and> (s0 < i \<longrightarrow> \<not> msk ! (i - 1))
      | Some a \<Rightarrow> s0 \<le> a \<and> a < i \<and> cur_len = i - a \<and> (\<forall>j. a \<le> j \<and> j < i \<longrightarrow> msk ! j) \<and>
                  (s0 < a \<longrightarrow> \<not> msk ! (a - 1)))"

definition closed_lim :: "nat \<Rightarrow> nat option \<Rightarrow> nat" where
  "closed_lim i cur_s = (case cur_s of None \<Rightarrow> i | Some a \<Rightarrow> a)"

lemma is_run_nth: "is_run msk a b \<Longrightarrow> a \<le> j \<Longrightarrow> j \<le> b \<Longrightarrow> msk ! j"
  by (simp add: is_run_def)

lemma best_ok_cases:
  assumes "best_ok msk s0 lm0 w"
  obtains (none) "w = (None, None, 0)" "\<And>a b. s0 \<le> a \<Longrightarrow> b < lm0 \<Longrightarrow> \<not> is_run msk a b"
  | (some) a b where "w = (Some a, Some b, b - a + 1)" "s0 \<le> a" "b < lm0" "is_run msk a b"
      "\<And>a' b'. s0 \<le> a' \<Longrightarrow> b' < lm0 \<Longrightarrow> is_run msk a' b' \<Longrightarrow>
          b' - a' + 1 \<le> b - a + 1 \<and> (b' - a' + 1 = b - a + 1 \<longrightarrow> a \<le> a')"
  using assms unfolding best_ok_def
  by (auto split: prod.splits option.splits)

lemma best_ok_step_false:
  assumes "best_ok msk s0 i w" "\<not> msk ! i"
  shows "best_ok msk s0 (Suc i) w"
proof -
  have shrink: "b < i" if "b < Suc i" "is_run msk a b" for a b
  proof -
    have "msk ! b" using that(2) by (simp add: is_run_def)
    with assms(2) have "b \<noteq> i" by auto
    with that(1) show ?thesis by simp
  qed
  from assms(1) show ?thesis
  proof (cases rule: best_ok_cases)
    case none
    then show ?thesis unfolding best_ok_def using shrink by auto
  next
    case (some a b)
    then show ?thesis unfolding best_ok_def using shrink by auto
  qed
qed

lemma run_in_progress:
  assumes cur: "cur_ok msk s0 i (Some a) cur_len"
    and r: "is_run msk a' b'" "s0 \<le> a'" "b' < i" "a \<le> b'"
  shows "a \<le> a' \<and> b' - a' + 1 \<le> i - a \<and> (b' - a' + 1 = i - a \<longrightarrow> a' = a)"
proof -
  from cur have a: "s0 \<le> a" "a < i" "s0 < a \<longrightarrow> \<not> msk ! (a - 1)"
    by (simp_all add: cur_ok_def)
  have le: "a \<le> a'"
  proof (rule ccontr)
    assume "\<not> a \<le> a'"
    then have lt: "a' < a" by simp
    with r(2) have "s0 < a" by simp
    with a(3) have "\<not> msk ! (a - 1)" by simp
    moreover have "msk ! (a - 1)" using r(1,4) lt by (intro is_run_nth [OF r(1)]) auto
    ultimately show False by simp
  qed
  from r(1) have "a' \<le> b'" by (simp add: is_run_def)
  with le r(3) show ?thesis by auto
qed

lemma best_ok_merge:
  assumes cur: "cur_ok msk s0 i (Some a) cur_len"
    and best: "best_ok msk s0 a w"
  shows "best_ok msk s0 i (if cur_len > snd (snd w) then (Some a, Some (i - 1), cur_len) else w)"
proof -
  from cur have a: "s0 \<le> a" "a < i" "cur_len = i - a" "\<forall>j. a \<le> j \<and> j < i \<longrightarrow> msk ! j"
    by (simp_all add: cur_ok_def)
  have cur_run: "is_run msk a (i - 1)" using a by (auto simp: is_run_def)
  from best show ?thesis
  proof (cases rule: best_ok_cases)
    case none
    have gt: "cur_len > snd (snd w)" using none(1) a by simp
    have "b' - a' + 1 \<le> cur_len \<and> (b' - a' + 1 = cur_len \<longrightarrow> a \<le> a')"
      if "s0 \<le> a'" "b' < i" "is_run msk a' b'" for a' b'
    proof (cases "b' < a")
      case True
      with none(2) that show ?thesis by blast
    next
      case False
      with run_in_progress [OF cur that(3,1,2)] a(3) show ?thesis by auto
    qed
    with gt a cur_run show ?thesis unfolding best_ok_def by auto
  next
    case (some ba bb)
    show ?thesis
    proof (cases "cur_len > snd (snd w)")
      case True
      have "b' - a' + 1 \<le> cur_len \<and> (b' - a' + 1 = cur_len \<longrightarrow> a \<le> a')"
        if "s0 \<le> a'" "b' < i" "is_run msk a' b'" for a' b'
      proof (cases "b' < a")
        case True
        with some(5) [OF that(1) _ that(3)] \<open>cur_len > snd (snd w)\<close> some(1) show ?thesis by auto
      next
        case False
        with run_in_progress [OF cur that(3,1,2)] a(3) show ?thesis by auto
      qed
      with True a cur_run show ?thesis unfolding best_ok_def by auto
    next
      case False
      have "b' - a' + 1 \<le> bb - ba + 1 \<and> (b' - a' + 1 = bb - ba + 1 \<longrightarrow> ba \<le> a')"
        if "s0 \<le> a'" "b' < i" "is_run msk a' b'" for a' b'
      proof (cases "b' < a")
        case True
        with some(5) [OF that(1) _ that(3)] show ?thesis by auto
      next
        case nlt: False
        from some(4) have "ba \<le> bb" by (simp add: is_run_def)
        with run_in_progress [OF cur that(3,1,2)] nlt a(3) False some(1,3) show ?thesis by auto
      qed
      with False some a show ?thesis unfolding best_ok_def by auto
    qed
  qed
qed

lemma window_loop_invariant:
  assumes "e < length msk" "s0 \<le> i" "i \<le> Suc e"
    and "cur_ok msk s0 i cur_s cur_len" "best_ok msk s0 (closed_lim i cur_s) best"
  shows "\<exists>best' cur_s' cur_len'.
           window_loop msk i e best cur_s cur_len = Inr (best', cur_s', cur_len') \<and>
           cur_ok msk s0 (Suc e) cur_s' cur_len' \<and>
           best_ok msk s0 (closed_lim (Suc e) cur_s') best'"
  using assms
proof (induction msk i e best cur_s cur_len rule: window_loop.induct)
  case (1 msk i e best cur_s cur_len)
  show ?case
  proof (cases "i \<le> e")
    case False
    with "1.prems" have "i = Suc e" by simp
    with "1.prems" False show ?thesis by (simp add: window_loop.simps)
  next
    case True
    with "1.prems" have nth: "py_nth msk i = Inr (msk ! i)" by (simp add: py_nth_def)
    have bounds: "s0 \<le> i + 1" "i + 1 \<le> Suc e" using True "1.prems" by simp_all
    show ?thesis
    proof (cases "msk ! i")
      case mt: True
      then have mte: "(msk ! i) = True" by simp
      show ?thesis
      proof (cases cur_s)
        case None
        have "msk ! j" if "i \<le> j" "j < i + 1" for j
          using that mt by (cases "j = i") auto
        then have c: "cur_ok msk s0 (i + 1) (Some i) 1"
          using "1.prems"(2,4) None by (auto simp: cur_ok_def)
        have b: "best_ok msk s0 (closed_lim (i + 1) (Some i)) best"
          using "1.prems"(5) None by (simp add: closed_lim_def)
        from "1.IH"(1) [OF True nth mte None "1.prems"(1) bounds c b]
        show ?thesis using True nth mt None by (subst window_loop.simps) simp
      next
        case (Some a)
        have c: "cur_ok msk s0 (i + 1) cur_s (cur_len + 1)"
          using "1.prems"(4) Some mt by (auto simp: cur_ok_def less_Suc_eq)
        have b: "best_ok msk s0 (closed_lim (i + 1) cur_s) best"
          using "1.prems"(5) Some by (simp add: closed_lim_def)
        from "1.IH"(2) [OF True nth mte Some "1.prems"(1) bounds c b]
        show ?thesis using True nth mt Some by (subst window_loop.simps) simp
      qed
    next
      case mf: False
      then have mfe: "(msk ! i) = False" by simp
      let ?best = "if cur_s \<noteq> None \<and> cur_len > snd (snd best)
                   then (cur_s, Some (i - 1), cur_len) else best"
      have c: "cur_ok msk s0 (i + 1) None 0" using mf by (simp add: cur_ok_def)
      have "best_ok msk s0 i ?best"
      proof (cases cur_s)
        case None
        with "1.prems"(5) show ?thesis by (simp add: closed_lim_def)
      next
        case (Some a)
        with best_ok_merge [of msk s0 i a cur_len best] "1.prems"(4,5)
        show ?thesis by (auto simp: closed_lim_def split: if_splits)
      qed
      then have "best_ok msk s0 (Suc i) ?best" using mf by (rule best_ok_step_false)
      then have b: "best_ok msk s0 (closed_lim (i + 1) None) ?best" by (simp add: closed_lim_def)
      from "1.IH"(3) [OF True nth mfe "1.prems"(1) bounds c b]
      show ?thesis using True nth mf by (subst window_loop.simps) simp
    qed
  qed
qed

lemma find_longest_true_window_best:
  assumes "e < length msk \<or> e < s0"
  shows "\<exists>w. find_longest_true_window msk s0 e = Inr w \<and> best_ok msk s0 (Suc e) w"
proof (cases "s0 \<le> e")
  case False
  then have "window_loop msk s0 e (None, None, 0) None 0 = Inr ((None, None, 0), None, 0)"
    by (simp add: window_loop.simps)
  then have "find_longest_true_window msk s0 e = Inr (None, None, 0)"
    by (simp add: find_longest_true_window_def)
  moreover have "best_ok msk s0 (Suc e) (None, None, 0)"
    using False by (auto simp: best_ok_def is_run_def)
  ultimately show ?thesis by simp
next
  case True
  with assms have len: "e < length msk" by simp
  have c: "cur_ok msk s0 s0 None 0" by (simp add: cur_ok_def)
  have b: "best_ok msk s0 (closed_lim s0 None) (None, None, 0)"
    by (auto simp: best_ok_def closed_lim_def is_run_def)
  from window_loop_invariant [OF len _ _ c b] True
  obtain best cur_s cur_len where
    run: "window_loop msk s0 e (None, None, 0) None 0 = Inr (best, cur_s, cur_len)" and
    c': "cur_ok msk s0 (Suc e) cur_s cur_len" and
    b': "best_ok msk s0 (closed_lim (Suc e) cur_s) best"
    by auto
  let ?w = "if cur_s \<noteq> None \<and> cur_len > snd (snd best) then (cur_s, Some e, cur_len) else best"
  have res: "find_longest_true_window msk s0 e = Inr ?w"
    using run by (simp add: find_longest_true_window_def)
  have "best_ok msk s0 (Suc e) ?w"
  proof (cases cur_s)
    case None
    with b' show ?thesis by (simp add: closed_lim_def)
  next
    case (Some a)
    with best_ok_merge [of msk s0 "Suc e" a cur_len best] c' b'
    show ?thesis by (auto simp: closed_lim_def split: if_splits)
  qed
  with res show ?thesis by blast
qed



lemma best_ok_shape:
  assumes "best_ok msk s0 lm0 w"
  shows "w = (None, None, 0) \<or> (\<exists>a b. w = (Some a, Some b, b - a + 1) \<and> s0 \<le> a \<and> a \<le> b \<and> b < lm0)"
  using assms by (cases rule: best_ok_cases) (auto simp: is_run_def)

lemma py_nth_eq_Inr: "py_nth xs i = Inr x \<longleftrightarrow> i < length xs \<and> x = xs ! i"
  by (auto simp: py_nth_def)

lemma py_index_eq_Inr_nonneg:
  "0 \<le> i \<Longrightarrow> py_index xs i = Inr x \<longleftrightarrow> nat i < length xs \<and> x = xs ! nat i"
  by (auto simp: py_index_def Let_def)

lemma fallback_start_bounds:
  fixes z0 z1 :: nat
  defines "ss \<equiv> int z0 + int_mul_06 (int z1 - int z0)"
  shows "z0 \<le> z1 \<Longrightarrow> int z0 \<le> ss \<and> ss \<le> int z1"
    and "z1 < z0 \<Longrightarrow> int z1 < ss \<and> ss \<le> int z0"
    and "0 \<le> ss"
proof -
  show a: "int z0 \<le> ss \<and> ss \<le> int z1" if "z0 \<le> z1"
    using int_mul_06_bounds(1) [of "int z1 - int z0"] that unfolding ss_def by simp
  show b: "int z1 < ss \<and> ss \<le> int z0" if "z1 < z0"
    using int_mul_06_bounds(2) [of "int z1 - int z0"] that unfolding ss_def by simp
  show "0 \<le> ss" using a b by (cases "z0 \<le> z1") auto
qed


lemma entry_window_total:
  assumes "snd z < length msk \<or> snd z < fst z" "snd z < length cds" "fst z < length cds"
  shows "\<exists>r. entry_window cds msk z = Inr r"
proof -
  from find_longest_true_window_best [OF assms(1)] obtain w where
    w: "find_longest_true_window msk (fst z) (snd z) = Inr w" and
    best: "best_ok msk (fst z) (Suc (snd z)) w" by blast
  let ?ss = "int (fst z) + int_mul_06 (int (snd z) - int (fst z))"
  from best_ok_shape [OF best] show ?thesis
  proof
    assume none: "w = (None, None, 0)"
    have "0 \<le> ?ss" by (rule fallback_start_bounds(3))
    moreover have "nat ?ss < length cds"
    proof (cases "fst z \<le> snd z")
      case True
      with fallback_start_bounds(1) [of "fst z" "snd z"] assms(2) show ?thesis by linarith
    next
      case False
      then have "snd z < fst z" by simp
      with fallback_start_bounds(2) [of "snd z" "fst z"] assms(3) show ?thesis by linarith
    qed
    ultimately have "py_index cds ?ss = Inr (cds ! nat ?ss)"
      by (simp add: py_index_eq_Inr_nonneg)
    moreover have "py_nth cds (snd z) = Inr (cds ! snd z)" using assms(2) by (simp add: py_nth_def)
    ultimately have "entry_window cds msk z =
        Inr (Some (ts (cds ! nat ?ss)), Some (ts (cds ! snd z)), 0.35, [FallbackWindow ?ss (snd z)])"
      using w none by (simp add: entry_window_def Let_def)
    then show ?thesis by blast
  next
    assume "\<exists>a b. w = (Some a, Some b, b - a + 1) \<and> fst z \<le> a \<and> a \<le> b \<and> b < Suc (snd z)"
    then obtain a b where ab: "w = (Some a, Some b, b - a + 1)" "a \<le> b" "b < Suc (snd z)" by blast
    with assms(2) have "py_nth cds a = Inr (cds ! a)" "py_nth cds b = Inr (cds ! b)"
      by (simp_all add: py_nth_def)
    with w ab(1) have "entry_window cds msk z =
        Inr (Some (ts (cds ! a)), Some (ts (cds ! b)),
             clamp (real (b - a + 1) / real_of_int (max 10 (int (snd z) - int (fst z) + 1))) 0.35 0.85,
             [CompressionWindow a b (b - a + 1)])"
      by (simp add: entry_window_def Let_def)
    then show ?thesis by blast
  qed
qed







section \<open>Every stage returns on a well-formed run\<close>

text \<open>
  Parameters under which no built-in stage raises: the histogram has at least one bin and
  every window is at least one bar long. The defaults are such parameters.
\<close>

definition params_ok :: "params \<Rightarrow> bool" where
  "params_ok ps \<longleftrightarrow>
     1 \<le> param_get ps ''vap_bins'' 60 \<and> 1 \<le> param_get ps ''vol_window'' 20 \<and>
     1 \<le> param_get ps ''atr_window'' 14 \<and> 1 \<le> param_get ps ''range_window'' 14 \<and>
     1 \<le> param_get ps ''vol_sma_window'' 14"

lemma params_ok_empty: "params_ok Map.empty"
  by (simp add: params_ok_def param_get_def)

subsection \<open>Structure\<close>

lemma bos_scan_mem: "bos_scan cl lev js = Some j \<Longrightarrow> j \<in> set js"
  by (induction js) (auto split: if_splits)

lemma base_end_loop_less:
  "base_end_loop cds cl sh ls = Some j \<Longrightarrow> j < length cl"
proof (induction ls)
  case Nil
  then show ?case by simp
next
  case (Cons li rest)
  then show ?case
    by (auto split: list.splits option.splits dest: bos_scan_mem)
qed

lemma find_base_end_less:
  assumes "cds \<noteq> []"
  shows "find_base_end cds sw < length cds"
proof -
  have n: "0 < length cds" using assms by simp
  show ?thesis
    unfolding find_base_end_def Let_def
    using int_mul_consts_less(1) [OF n] base_end_loop_less [of cds "map c cds" "highs sw" "lows sw"]
    by (auto split: option.splits)
qed

lemma StructureAgent_run_base_end:
  "candles ctx \<noteq> [] \<Longrightarrow> base_end_idx (res_output (StructureAgent_run ctx)) < length (candles ctx)"
  by (simp add: StructureAgent_run_def Let_def find_base_end_less)

subsection \<open>Volume\<close>

lemma volume_nodes_proxy_ok:
  assumes "cds \<noteq> []" "1 \<le> bins"
  shows "\<exists>nodes. volume_nodes_proxy cds bins = Inr nodes"
  using assms by (auto simp: volume_nodes_proxy_def Let_def py_div_def)

lemma VolumeAgent_run_ok:
  assumes "candles ctx \<noteq> []" "params_ok (params ctx)"
  shows "\<exists>r. VolumeAgent_run ctx = Inr r"
proof -
  from assms(2) have "1 \<le> param_get (params ctx) ''vap_bins'' 60" by (simp add: params_ok_def)
  from volume_nodes_proxy_ok [OF assms(1) this] show ?thesis
    by (auto simp: VolumeAgent_run_def)
qed

subsection \<open>Moving averages and deviations\<close>

lemma length_sma_loop [simp]: "length (sma_loop w xs q s) = length xs"
  by (induction xs arbitrary: q s) (simp_all add: Let_def)

lemma sma_ok: "1 \<le> w \<Longrightarrow> sma xs w = Inr (sma_loop w xs [] 0)"
  by (simp add: sma_def)

lemma length_true_ranges [simp]: "length (true_ranges p cds) = length cds"
  by (induction cds arbitrary: p) simp_all

lemma atr_ok: "1 \<le> w \<Longrightarrow> \<exists>out. atr cds w = Inr out \<and> length out = length cds"
  by (simp add: atr_def sma_ok)

lemma rolling_std_loop_ok:
  assumes "1 \<le> w" "\<forall>i \<in> set idxs. i < length xs"
  shows "\<exists>out. rolling_std_loop xs w idxs = Inr out \<and> length out = length idxs"
  using assms(2)
proof (induction idxs)
  case Nil
  then show ?case by simp
next
  case (Cons i idxs)
  then obtain out where out: "rolling_std_loop xs w idxs = Inr out" "length out = length idxs"
    by auto
  from Cons.prems have i: "i < length xs" by simp
  show ?case
  proof (cases "w \<le> i + 1")
    case True
    have "take w (drop (i + 1 - w) xs) \<noteq> []" using assms(1) i True by simp
    then obtain sd where "pstdev (take w (drop (i + 1 - w) xs)) = Inr sd"
      by (auto simp: pstdev_def Let_def)
    with out True show ?thesis by simp
  next
    case False
    with out show ?thesis by simp
  qed
qed

lemma rolling_std_ok:
  "1 \<le> w \<Longrightarrow> \<exists>out. rolling_std xs w = Inr out \<and> length out = length xs"
  using rolling_std_loop_ok [of w "[0..<length xs]" xs] by (simp add: rolling_std_def)

subsection \<open>Regime and accumulation/distribution\<close>

lemma RegimeAgent_run_ok:
  assumes "params_ok (params ctx)"
  shows "\<exists>r. RegimeAgent_run ctx = Inr r \<and>
           length (compression_mask (res_output r)) = length (candles ctx)"
proof -
  from assms have w: "1 \<le> param_get (params ctx) ''vol_window'' 20"
    "1 \<le> param_get (params ctx) ''atr_window'' 14" by (simp_all add: params_ok_def)
  from rolling_std_ok [OF w(1)] obtain rstd where
    r: "rolling_std (map c (candles ctx)) (param_get (params ctx) ''vol_window'' 20) = Inr rstd"
    by blast
  from atr_ok [OF w(2)] obtain atrv where
    a: "atr (candles ctx) (param_get (params ctx) ''atr_window'' 14) = Inr atrv" by blast
  show ?thesis unfolding RegimeAgent_run_def r a by (simp add: Let_def)
qed

lemma AccumDistAgent_run_ok:
  assumes "params_ok (params ctx)"
  shows "\<exists>r. AccumDistAgent_run ctx = Inr r \<and>
           length (distribution_flags (res_output r)) = length (candles ctx) \<and>
           length (absorption_flags (res_output r)) = length (candles ctx)"
proof -
  from assms have w: "1 \<le> param_get (params ctx) ''range_window'' 14"
    "1 \<le> param_get (params ctx) ''vol_sma_window'' 14" by (simp_all add: params_ok_def)
  show ?thesis unfolding AccumDistAgent_run_def Let_def sma_ok [OF w(1)] sma_ok [OF w(2)]
    by simp
qed

subsection \<open>The resolver\<close>

lemma count_flags_ok:
  "\<forall>i \<in> set idxs. i < length flags \<Longrightarrow> \<exists>k. count_flags flags idxs = Inr k"
proof (induction idxs)
  case Nil
  then show ?case by simp
next
  case (Cons i idxs)
  then obtain k where "count_flags flags idxs = Inr k" by auto
  with Cons.prems show ?case by (simp add: py_nth_def)
qed

lemma if_Inr_ex: "\<exists>r. (if A then Inr x else if B then Inr y else Inr z) = Inr r"
  by (cases A; cases B) auto

lemma state_for_zone_ok:
  assumes "snd z < length dflags" "snd z < length aflags"
  shows "\<exists>r. state_for_zone dflags aflags z = Inr r"
proof -
  have "\<forall>i \<in> set [fst z..<snd z + 1]. i < length dflags" using assms(1) by auto
  from count_flags_ok [OF this]
  obtain d where d: "count_flags dflags [fst z..<snd z + 1] = Inr d" by blast
  have "\<forall>i \<in> set [fst z..<snd z + 1]. i < length aflags" using assms(2) by auto
  from count_flags_ok [OF this]
  obtain a where a: "count_flags aflags [fst z..<snd z + 1] = Inr a" by blast
  show ?thesis unfolding state_for_zone_def d a bind_err_simps Let_def by (rule if_Inr_ex)
qed

lemma zones_bounds:
  assumes "0 < n" "b < n" "z \<in> set (zones n b)"
  shows "fst (fst z) < n \<and> snd (fst z) < n"
  using assms int_mul_consts_less [OF assms(1)] by (auto simp: zones_def)

lemma build_layers_ok:
  assumes tr: "tr_structure (traces ctx) = Some strc" "tr_volume (traces ctx) = Some vol"
      "tr_cost_basis (traces ctx) = Some costb" "tr_regime (traces ctx) = Some reg"
      "tr_accum_dist (traces ctx) = Some accd"
    and ne: "candles ctx \<noteq> []"
    and be: "base_end_idx (res_output strc) < length (candles ctx)"
    and len: "length (compression_mask (res_output reg)) = length (candles ctx)"
      "length (distribution_flags (res_output accd)) = length (candles ctx)"
      "length (absorption_flags (res_output accd)) = length (candles ctx)"
  shows "\<exists>r. build_layers ctx = Inr r"
proof -
  let ?cds = "candles ctx"
  let ?zs = "zones (length ?cds) (base_end_idx (res_output strc))"
  let ?bw = "\<lambda>(z, widen). bind_err (band_from_zone ?cds z widen) (\<lambda>b.
               bind_err (entry_window ?cds (compression_mask (res_output reg)) z) (\<lambda>w. Inr (b, w)))"
  let ?st = "\<lambda>(z, widen :: real). state_for_zone (distribution_flags (res_output accd))
               (absorption_flags (res_output accd)) z"
  have n: "0 < length ?cds" using ne by simp
  have "\<exists>x. ?bw zw = Inr x" if "zw \<in> set ?zs" for zw
  proof -
    obtain z wd where zw: "zw = (z, wd)" by (cases zw)
    from zones_bounds [OF n be that] zw have zb: "fst z < length ?cds" "snd z < length ?cds"
      by simp_all
    obtain b where b: "band_from_zone ?cds z wd = Inr b" using band_from_zone_total by blast
    from entry_window_total [of z "compression_mask (res_output reg)" ?cds] zb len(1)
    obtain w where w: "entry_window ?cds (compression_mask (res_output reg)) z = Inr w" by auto
    from b w zw have "?bw zw = Inr (b, w)" by simp
    then show ?thesis by blast
  qed
  from sequence_err_total [of ?zs ?bw, OF this] obtain bws where
    bws: "sequence_err (map ?bw ?zs) = Inr bws" by blast
  have "\<exists>x. ?st zw = Inr x" if "zw \<in> set ?zs" for zw
  proof -
    obtain z wd where zw: "zw = (z, wd)" by (cases zw)
    from zones_bounds [OF n be that] zw have zb: "snd z < length ?cds" by simp
    from state_for_zone_ok [of z "distribution_flags (res_output accd)"
        "absorption_flags (res_output accd)"] zb len(2,3) zw
    show ?thesis by simp
  qed
  from sequence_err_total [of ?zs ?st, OF this] obtain sts where
    sts: "sequence_err (map ?st ?zs) = Inr sts" by blast
  show ?thesis unfolding build_layers_def tr using bws sts by (simp add: Let_def)
qed

subsection \<open>The orchestrator\<close>

text \<open>What the context holds once all six stages have run.\<close>

lemma run_agents_ok:
  assumes "candles ctx0 \<noteq> []" "params_ok (params ctx0)"
  shows "\<exists>ctx vol reg accd.
           run_agents ctx0 = Inr ctx \<and>
           candles ctx = candles ctx0 \<and> params ctx = params ctx0 \<and>
           tr_structure (traces ctx) = Some (StructureAgent_run ctx0) \<and>
           tr_volume (traces ctx) = Some vol \<and>
           (\<exists>costb. tr_cost_basis (traces ctx) = Some costb) \<and>
           tr_regime (traces ctx) = Some reg \<and>
           tr_accum_dist (traces ctx) = Some accd \<and>
           (\<exists>ver. tr_verifier (traces ctx) = Some ver) \<and>
           length (compression_mask (res_output reg)) = length (candles ctx0) \<and>
           length (distribution_flags (res_output accd)) = length (candles ctx0) \<and>
           length (absorption_flags (res_output accd)) = length (candles ctx0)"
proof -
  let ?ctx1 = "ctx0 \<lparr> traces := (traces ctx0) \<lparr> tr_structure := Some (StructureAgent_run ctx0) \<rparr> \<rparr>"
  have c1: "candles ?ctx1 = candles ctx0" "params ?ctx1 = params ctx0" by simp_all
  from VolumeAgent_run_ok [of ?ctx1] assms c1 obtain vol where
    vol: "VolumeAgent_run ?ctx1 = Inr vol" by auto
  let ?ctx2 = "?ctx1 \<lparr> traces := (traces ?ctx1) \<lparr> tr_volume := Some vol \<rparr> \<rparr>"
  let ?ctx3 = "?ctx2 \<lparr> traces := (traces ?ctx2) \<lparr> tr_cost_basis := Some (CostBasisAgent_run ?ctx2) \<rparr> \<rparr>"
  have c3: "candles ?ctx3 = candles ctx0" "params ?ctx3 = params ctx0" by simp_all
  from RegimeAgent_run_ok [of ?ctx3] assms(2) c3 obtain reg where
    reg: "RegimeAgent_run ?ctx3 = Inr reg"
      "length (compression_mask (res_output reg)) = length (candles ctx0)" by auto
  let ?ctx4 = "?ctx3 \<lparr> traces := (traces ?ctx3) \<lparr> tr_regime := Some reg \<rparr> \<rparr>"
  have c4: "candles ?ctx4 = candles ctx0" "params ?ctx4 = params ctx0" by simp_all
  from AccumDistAgent_run_ok [of ?ctx4] assms(2) c4 obtain accd where
    accd: "AccumDistAgent_run ?ctx4 = Inr accd"
      "length (distribution_flags (res_output accd)) = length (candles ctx0)"
      "length (absorption_flags (res_output accd)) = length (candles ctx0)" by auto
  show ?thesis
    unfolding run_agents_def Let_def using vol reg accd by simp
qed

lemma run_agents_resolve_ok:
  assumes "candles ctx0 \<noteq> []" "params_ok (params ctx0)"
  shows "\<exists>ctx lbs. run_agents ctx0 = Inr ctx \<and> resolve_layers ctx = Inr lbs \<and>
           candles ctx = candles ctx0 \<and> params ctx = params ctx0 \<and>
           tr_structure (traces ctx) = Some (StructureAgent_run ctx0)"
proof -
  from run_agents_ok [OF assms] obtain ctx vol reg accd costb where
    run: "run_agents ctx0 = Inr ctx" and
    same: "candles ctx = candles ctx0" "params ctx = params ctx0" and
    tr: "tr_structure (traces ctx) = Some (StructureAgent_run ctx0)"
      "tr_volume (traces ctx) = Some vol" "tr_cost_basis (traces ctx) = Some costb"
      "tr_regime (traces ctx) = Some reg" "tr_accum_dist (traces ctx) = Some accd" and
    len: "length (compression_mask (res_output reg)) = length (candles ctx0)"
      "length (distribution_flags (res_output accd)) = length (candles ctx0)"
      "length (absorption_flags (res_output accd)) = length (candles ctx0)"
    by blast
  have "\<exists>r. build_layers ctx = Inr r"
    using build_layers_ok [OF tr] assms(1) StructureAgent_run_base_end [OF assms(1)] len same
    by simp
  then obtain hs lbs where "build_layers ctx = Inr (hs, lbs)" by auto
  then have "resolve_layers ctx = Inr (map (hvn_hint hs) lbs)"
    by (simp add: resolve_layers_eq)
  with run same tr(1) show ?thesis by blast
qed

section \<open>Validation of the candle count\<close>

text \<open>No stage and no step of the resolver raises the error of the validation.\<close>

lemma bind_err_eq_Inl:
  "bind_err r f = Inl e \<longleftrightarrow> r = Inl e \<or> (\<exists>x. r = Inr x \<and> f x = Inl e)"
  by (cases r) simp_all

lemma sequence_err_InlD:
  "sequence_err (map f zs) = Inl e \<Longrightarrow> \<exists>z \<in> set zs. f z = Inl e"
  by (induction zs) (auto split: sum.splits)

lemma volume_nodes_proxy_error:
  "volume_nodes_proxy cds bins = Inl e \<Longrightarrow> e = ZeroDivisionError"
  by (auto simp: volume_nodes_proxy_def Let_def py_div_def bind_err_eq_Inl split: if_splits)

lemma VolumeAgent_run_error: "VolumeAgent_run ctx = Inl e \<Longrightarrow> e = ZeroDivisionError"
  by (auto simp: VolumeAgent_run_def bind_err_eq_Inl dest: volume_nodes_proxy_error)

lemma sma_error: "sma xs w = Inl e \<Longrightarrow> e = InvalidArgument"
  by (auto simp: sma_def split: if_splits)

lemma rolling_std_loop_error: "rolling_std_loop xs w idxs = Inl e \<Longrightarrow> e = StatisticsError"
  by (induction idxs) (auto simp: pstdev_def Let_def split: if_splits sum.splits)

lemma RegimeAgent_run_error:
  "RegimeAgent_run ctx = Inl e \<Longrightarrow> e = StatisticsError \<or> e = InvalidArgument"
  by (auto simp: RegimeAgent_run_def Let_def bind_err_eq_Inl rolling_std_def atr_def
      dest: rolling_std_loop_error sma_error)

lemma AccumDistAgent_run_error: "AccumDistAgent_run ctx = Inl e \<Longrightarrow> e = InvalidArgument"
  by (auto simp: AccumDistAgent_run_def Let_def bind_err_eq_Inl dest: sma_error)

lemma run_agents_error: "run_agents ctx = Inl e \<Longrightarrow> e \<noteq> InsufficientData"
  by (auto simp: run_agents_def Let_def bind_err_eq_Inl
      dest: VolumeAgent_run_error RegimeAgent_run_error AccumDistAgent_run_error)

lemma window_loop_error:
  "window_loop msk i e best cur_s cur_len = Inl err \<Longrightarrow> err = IndexError"
proof (induction msk i e best cur_s cur_len rule: window_loop.induct)
  case (1 msk i e best cur_s cur_len)
  from "1.prems" show ?case
    by (subst (asm) window_loop.simps)
       (auto simp: py_nth_def split: if_splits option.splits bool.splits
          dest: "1.IH"(1) "1.IH"(2) "1.IH"(3))
qed

lemma entry_window_error:
  "entry_window cds msk z = Inl e \<Longrightarrow> e = IndexError \<or> e = TypeError"
  by (auto simp: entry_window_def find_longest_true_window_def Let_def bind_err_eq_Inl
      py_nth_def py_index_def split: option.splits if_splits prod.splits
      dest: window_loop_error)

lemma count_flags_error: "count_flags flags idxs = Inl e \<Longrightarrow> e = IndexError"
  by (induction idxs) (auto simp: py_nth_def split: if_splits sum.splits)

lemma state_for_zone_error: "state_for_zone dflags aflags z = Inl e \<Longrightarrow> e = IndexError"
  by (auto simp: state_for_zone_def Let_def bind_err_eq_Inl split: if_splits
      dest: count_flags_error)

lemma build_layers_error: "build_layers ctx = Inl e \<Longrightarrow> e \<noteq> InsufficientData"
proof
  assume run: "build_layers ctx = Inl e" and e: "e = InsufficientData"
  show False
  proof (cases "\<exists>strc vol costb reg accd.
      tr_structure (traces ctx) = Some strc \<and> tr_volume (traces ctx) = Some vol \<and>
      tr_cost_basis (traces ctx) = Some costb \<and> tr_regime (traces ctx) = Some reg \<and>
      tr_accum_dist (traces ctx) = Some accd")
    case False
    then have "build_layers ctx = Inl KeyError"
      by (auto simp: build_layers_def split: option.splits)
    with run e show False by simp
  next
    case True
    then obtain strc vol costb reg accd where tr:
      "tr_structure (traces ctx) = Some strc" "tr_volume (traces ctx) = Some vol"
      "tr_cost_basis (traces ctx) = Some costb" "tr_regime (traces ctx) = Some reg"
      "tr_accum_dist (traces ctx) = Some accd" by blast
    let ?cds = "candles ctx"
    let ?zs = "zones (length ?cds) (base_end_idx (res_output strc))"
    let ?bw = "\<lambda>(z, widen). bind_err (band_from_zone ?cds z widen) (\<lambda>b.
                 bind_err (entry_window ?cds (compression_mask (res_output reg)) z) (\<lambda>w. Inr (b, w)))"
    let ?st = "\<lambda>(z, widen :: real). state_for_zone (distribution_flags (res_output accd))
                 (absorption_flags (res_output accd)) z"
    from run tr have "sequence_err (map ?bw ?zs) = Inl e \<or> sequence_err (map ?st ?zs) = Inl e"
      by (auto simp: build_layers_def Let_def bind_err_eq_Inl)
    then show False
    proof
      assume "sequence_err (map ?bw ?zs) = Inl e"
      from sequence_err_InlD [OF this] obtain z wd where
        "bind_err (band_from_zone ?cds z wd) (\<lambda>b.
           bind_err (entry_window ?cds (compression_mask (res_output reg)) z) (\<lambda>w. Inr (b, w))) = Inl e"
        by auto
      moreover obtain b where "band_from_zone ?cds z wd = Inr b"
        using band_from_zone_total by blast
      ultimately have "entry_window ?cds (compression_mask (res_output reg)) z = Inl e"
        by (auto simp: bind_err_eq_Inl)
      from entry_window_error [OF this] e show False by simp
    next
      assume "sequence_err (map ?st ?zs) = Inl e"
      from sequence_err_InlD [OF this] obtain z where
        "state_for_zone (distribution_flags (res_output accd))
           (absorption_flags (res_output accd)) z = Inl e"
        by auto
      from state_for_zone_error [OF this] e show False by simp
    qed
  qed
qed

lemma resolve_layers_error: "resolve_layers ctx = Inl e \<Longrightarrow> e \<noteq> InsufficientData"
  by (auto simp: resolve_layers_def bind_err_eq_Inl dest: build_layers_error)

text \<open>
  Claim C3. With fewer than 100 candles (the empty list included) \<open>analyze\<close> fails with
  \<open>InsufficientData\<close>: the result is the error alone, no layer map and no context or
  traces. With at least 100 candles the result is never that error; and if the parameters
  are well-formed (as the defaults are) the run succeeds.
\<close>

theorem analyze_validation:
  "(length cds < 100 \<longrightarrow> analyze sy tf cds ps = Inl InsufficientData) \<and>
   (100 \<le> length cds \<longrightarrow> analyze sy tf cds ps \<noteq> Inl InsufficientData) \<and>
   (100 \<le> length cds \<and> params_ok (case ps of None \<Rightarrow> Map.empty | Some p \<Rightarrow> p) \<longrightarrow>
      (\<exists>lm. analyze sy tf cds ps = Inr lm))"
proof (intro conjI impI)
  assume "length cds < 100"
  then show "analyze sy tf cds ps = Inl InsufficientData" by (simp add: analyze_def)
next
  assume n: "100 \<le> length cds"
  show "analyze sy tf cds ps \<noteq> Inl InsufficientData"
  proof
    assume bad: "analyze sy tf cds ps = Inl InsufficientData"
    from n have "cds \<noteq> []" "\<not> length cds < 100" by auto
    with bad show False
      by (auto simp: analyze_def bind_err_eq_Inl dest: run_agents_error resolve_layers_error)
  qed
next
  assume a: "100 \<le> length cds \<and> params_ok (case ps of None \<Rightarrow> Map.empty | Some p \<Rightarrow> p)"
  let ?ctx0 = "\<lparr> ctx_symbol = sy, ctx_timeframe = tf, candles = cds,
                  params = (case ps of None \<Rightarrow> Map.empty | Some p \<Rightarrow> p),
                  traces = empty_traces \<rparr>"
  from a have ne: "candles ?ctx0 \<noteq> []" and ok: "params_ok (params ?ctx0)" by auto
  from run_agents_resolve_ok [OF ne ok] obtain ctx lbs where
    "run_agents ?ctx0 = Inr ctx" "resolve_layers ctx = Inr lbs" by blast
  moreover from a have "cds \<noteq> []" "\<not> length cds < 100" by auto
  ultimately show "\<exists>lm. analyze sy tf cds ps = Inr lm"
    by (simp add: analyze_def)
qed


text \<open>
  The flat market of the spec's scenarios: \<open>n\<close> hourly candles with
  \<open>o = h = l = c = 100\<close> and volume 10. Fifty of them, and none at all, are refused; a
  hundred are analysed.
\<close>

definition flat_market :: "nat \<Rightarrow> Candle list" where
  "flat_market n = map (\<lambda>i. \<lparr> ts = 3600 * int i, opn = 100, h = 100, l = 100, c = 100, v = 10 \<rparr>) [0..<n]"

lemma length_flat_market [simp]: "length (flat_market n) = n"
  by (simp add: flat_market_def)

theorem analyze_validation_witness:
  "analyze ''XAGUSD'' ''4H'' (flat_market 50) None = Inl InsufficientData \<and>
   analyze ''XAGUSD'' ''4H'' [] None = Inl InsufficientData \<and>
   analyze ''XAGUSD'' ''4H'' (flat_market 100) None \<noteq> Inl InsufficientData \<and>
   (\<exists>lm. analyze ''XAGUSD'' ''4H'' (flat_market 100) None = Inr lm)"
  using analyze_validation [of "flat_market 50" "''XAGUSD''" "''4H''" None]
    analyze_validation [of "[]" "''XAGUSD''" "''4H''" None]
    analyze_validation [of "flat_market 100" "''XAGUSD''" "''4H''" None]
  by (simp add: params_ok_empty)

section \<open>Zones without volume\<close>

lemma set_segment_by_indices: "set (segment_by_indices cds i0 i1) \<subseteq> set cds"
  by (auto simp: segment_by_indices_def Let_def dest: in_set_takeD in_set_dropD)

lemma segment_from_start: "cds \<noteq> [] \<Longrightarrow> segment_by_indices cds 0 i1 \<noteq> []"
  by (cases cds) (auto simp: segment_by_indices_def Let_def min_def)

lemma make_layer_fields:
  "layer (make_layer vc k ((lo, hi, cb, b_ev), (s, e, wconf, w_ev)) (st_name, sconf, s_ev)) = k"
  "price_low (make_layer vc k ((lo, hi, cb, b_ev), (s, e, wconf, w_ev)) (st_name, sconf, s_ev)) = lo"
  "price_high (make_layer vc k ((lo, hi, cb, b_ev), (s, e, wconf, w_ev)) (st_name, sconf, s_ev)) = hi"
  "entry_start_ts (make_layer vc k ((lo, hi, cb, b_ev), (s, e, wconf, w_ev)) (st_name, sconf, s_ev)) = s"
  "entry_end_ts (make_layer vc k ((lo, hi, cb, b_ev), (s, e, wconf, w_ev)) (st_name, sconf, s_ev)) = e"
  "cost_basis (make_layer vc k ((lo, hi, cb, b_ev), (s, e, wconf, w_ev)) (st_name, sconf, s_ev)) = cb"
  "confidence (make_layer vc k ((lo, hi, cb, b_ev), (s, e, wconf, w_ev)) (st_name, sconf, s_ev)) =
     combine_conf wconf sconf vc"
  by (simp_all add: make_layer_def)

text \<open>
  The layer of zone \<open>k\<close> in the result of the resolver, with the band, the entry window
  and the state it was built from.
\<close>

lemma resolve_layers_nth:
  assumes "resolve_layers ctx = Inr lbs" "tr_structure (traces ctx) = Some strc" "k < 5"
  defines "z \<equiv> fst (zones (length (candles ctx)) (base_end_idx (res_output strc)) ! k)"
  defines "wd \<equiv> snd (zones (length (candles ctx)) (base_end_idx (res_output strc)) ! k)"
  obtains lo hi cb b_ev s e wconf w_ev sconf reg vc where
    "length lbs = 5"
    "tr_regime (traces ctx) = Some reg"
    "band_from_zone (candles ctx) z wd = Inr (lo, hi, cb, b_ev)"
    "entry_window (candles ctx) (compression_mask (res_output reg)) z = Inr (s, e, wconf, w_ev)"
    "layer (lbs ! k) = k + 1" "price_low (lbs ! k) = lo" "price_high (lbs ! k) = hi"
    "entry_start_ts (lbs ! k) = s" "entry_end_ts (lbs ! k) = e"
    "cost_basis (lbs ! k) = None \<longleftrightarrow> cb = None"
    "confidence (lbs ! k) = combine_conf wconf sconf vc"
proof -
  from assms(1) obtain hs lbs0 where b: "build_layers ctx = Inr (hs, lbs0)"
    and l: "lbs = map (hvn_hint hs) lbs0"
    by (auto simp: resolve_layers_eq)
  from build_layers_nth [OF b] assms(2) obtain reg where
    reg: "tr_regime (traces ctx) = Some reg" and len: "length lbs0 = 5" and
    each: "\<forall>k < 5. \<exists>b w st.
              band_from_zone (candles ctx)
                (fst (zones (length (candles ctx)) (base_end_idx (res_output strc)) ! k))
                (snd (zones (length (candles ctx)) (base_end_idx (res_output strc)) ! k)) = Inr b \<and>
              entry_window (candles ctx) (compression_mask (res_output reg))
                (fst (zones (length (candles ctx)) (base_end_idx (res_output strc)) ! k)) = Inr w \<and>
              lbs0 ! k = make_layer (case tr_verifier (traces ctx) of
                                       None \<Rightarrow> 0.6 | Some r \<Rightarrow> res_confidence r) (k + 1) (b, w) st"
    by fastforce
  from each assms(3) obtain b w st where
    bz: "band_from_zone (candles ctx) z wd = Inr b" and
    ew: "entry_window (candles ctx) (compression_mask (res_output reg)) z = Inr w" and
    mk: "lbs0 ! k = make_layer (case tr_verifier (traces ctx) of
                                  None \<Rightarrow> 0.6 | Some r \<Rightarrow> res_confidence r) (k + 1) (b, w) st"
    unfolding z_def wd_def by blast
  obtain lo hi cb b_ev where b': "b = (lo, hi, cb, b_ev)" by (cases b)
  obtain s e wconf w_ev where w': "w = (s, e, wconf, w_ev)" by (cases w)
  obtain st_name sconf s_ev where st': "st = (st_name, sconf, s_ev)" by (cases st)
  let ?vc = "case tr_verifier (traces ctx) of None \<Rightarrow> 0.6 | Some r \<Rightarrow> res_confidence r"
  have nth: "lbs ! k = hvn_hint hs (lbs0 ! k)" using l len assms(3) by simp
  have f: "layer (lbs ! k) = k + 1" "price_low (lbs ! k) = lo" "price_high (lbs ! k) = hi"
    "entry_start_ts (lbs ! k) = s" "entry_end_ts (lbs ! k) = e"
    "cost_basis (lbs ! k) = None \<longleftrightarrow> cb = None"
    "confidence (lbs ! k) = combine_conf wconf sconf ?vc"
    unfolding nth mk b' w' st' by (simp_all add: hvn_hint_frame make_layer_fields)
  have l5: "length lbs = 5" using l len by simp
  from l5 reg bz [unfolded b'] ew [unfolded w'] f show thesis by (rule that)
qed

lemma analyze_run:
  assumes "100 \<le> length cds" "params_ok (case ps of None \<Rightarrow> Map.empty | Some p \<Rightarrow> p)"
  obtains lm ctx where
    "analyze sy tf cds ps = Inr lm" "resolve_layers ctx = Inr (layers lm)" "candles ctx = cds"
    "tr_structure (traces ctx) =
       Some (StructureAgent_run \<lparr> ctx_symbol = sy, ctx_timeframe = tf, candles = cds,
                                  params = (case ps of None \<Rightarrow> Map.empty | Some p \<Rightarrow> p),
                                  traces = empty_traces \<rparr>)"
proof -
  let ?ctx0 = "\<lparr> ctx_symbol = sy, ctx_timeframe = tf, candles = cds,
                  params = (case ps of None \<Rightarrow> Map.empty | Some p \<Rightarrow> p),
                  traces = empty_traces \<rparr>"
  from assms have ne: "candles ?ctx0 \<noteq> []" and ok: "params_ok (params ?ctx0)" by auto
  from run_agents_resolve_ok [OF ne ok] obtain ctx lbs where
    run: "run_agents ?ctx0 = Inr ctx" "resolve_layers ctx = Inr lbs" and
    same: "candles ctx = cds" "tr_structure (traces ctx) = Some (StructureAgent_run ?ctx0)"
    by auto
  let ?lm = "\<lparr> symbol = sy, timeframe = tf, start_ts = ts (hd cds), end_ts = ts (last cds),
               layers = lbs,
               map_notes = [''This is a cost-basis proxy inference, not true holder cost basis.'',
                            ''Confidence is ensemble of regime window + acc/dist signals + verifier checks.''],
               meta = params ctx \<rparr>"
  from assms(1) have "cds \<noteq> []" "\<not> length cds < 100" by auto
  with run have "analyze sy tf cds ps = Inr ?lm" by (simp add: analyze_def)
  moreover have "resolve_layers ctx = Inr (layers ?lm)" using run(2) by simp
  ultimately show thesis using same by (rule that)
qed

lemma sum_list_all_zero: "\<forall>x \<in> set xs. f x = (0::real) \<Longrightarrow> sum_list (map f xs) = 0"
  by (induction xs) simp_all

lemma zones_nth_0: "zones n b ! 0 = ((0, b), 0.05)"
  by (simp add: zones_def)

text \<open>
  Claim C10. The centroid never raises: its division is guarded by \<open>den > 0\<close>. On a
  non-empty segment whose total volume is zero it returns \<open>None\<close>, and the layer of such a
  zone has no cost basis (the HVN refinement leaves a missing cost basis missing).
\<close>

theorem zero_volume_cost_basis:
  "(\<exists>r. weighted_centroid_price seg = Inr r) \<and>
   (seg \<noteq> [] \<and> sum_list (map v seg) = 0 \<longrightarrow> weighted_centroid_price seg = Inr None) \<and>
   (resolve_layers ctx = Inr lbs \<and> tr_structure (traces ctx) = Some strc \<and> k < 5 \<and>
    seg = segment_by_indices (candles ctx)
            (fst (fst (zones (length (candles ctx)) (base_end_idx (res_output strc)) ! k)))
            (snd (fst (zones (length (candles ctx)) (base_end_idx (res_output strc)) ! k))) \<and>
    seg \<noteq> [] \<and> sum_list (map v seg) = 0 \<longrightarrow>
    cost_basis (lbs ! k) = None)"
proof (intro conjI impI)
  show "\<exists>r. weighted_centroid_price seg = Inr r" by (rule weighted_centroid_price_total)
  show "weighted_centroid_price seg = Inr None" if "seg \<noteq> [] \<and> sum_list (map v seg) = 0"
    using that by (simp add: weighted_centroid_price_zero_volume)
next
  let ?z = "fst (zones (length (candles ctx)) (base_end_idx (res_output strc)) ! k)"
  let ?wd = "snd (zones (length (candles ctx)) (base_end_idx (res_output strc)) ! k)"
  assume a: "resolve_layers ctx = Inr lbs \<and> tr_structure (traces ctx) = Some strc \<and> k < 5 \<and>
    seg = segment_by_indices (candles ctx) (fst ?z) (snd ?z) \<and>
    seg \<noteq> [] \<and> sum_list (map v seg) = 0"
  then have r: "resolve_layers ctx = Inr lbs" and t: "tr_structure (traces ctx) = Some strc"
    and k: "k < 5" and seg: "seg = segment_by_indices (candles ctx) (fst ?z) (snd ?z)"
    and ne: "seg \<noteq> []" and zero: "sum_list (map v seg) = 0" by blast+
  from resolve_layers_nth [OF r t k] obtain lo hi cb b_ev where
    bz: "band_from_zone (candles ctx) ?z ?wd = Inr (lo, hi, cb, b_ev)" and
    cb: "cost_basis (lbs ! k) = None \<longleftrightarrow> cb = None"
    by metis
  from band_from_zone_cases [OF bz] ne seg have "weighted_centroid_price seg = Inr cb" by auto
  moreover have "weighted_centroid_price seg = Inr None"
    using zero by (simp add: weighted_centroid_price_zero_volume)
  ultimately have "cb = None" by simp
  with cb show "cost_basis (lbs ! k) = None" by simp
qed


text \<open>
  A hundred hourly candles at the price 100 with no volume at all: the run succeeds and
  the first layer, whose zone starts at the first candle, has no cost basis.
\<close>

definition idle_market :: "nat \<Rightarrow> Candle list" where
  "idle_market n = map (\<lambda>i. \<lparr> ts = 3600 * int i, opn = 100, h = 100, l = 100, c = 100, v = 0 \<rparr>) [0..<n]"

lemma idle_market_volume: "cd \<in> set (idle_market n) \<Longrightarrow> v cd = 0"
  by (auto simp: idle_market_def)

theorem zero_volume_cost_basis_witness:
  "\<exists>lm. analyze ''XAGUSD'' ''4H'' (idle_market 100) None = Inr lm \<and>
         cost_basis (layers lm ! 0) = None"
proof -
  let ?cds = "idle_market 100"
  have n: "100 \<le> length ?cds" by (simp add: idle_market_def)
  have ok: "params_ok (case None of None \<Rightarrow> Map.empty | Some p \<Rightarrow> p)"
    by (simp add: params_ok_empty)
  obtain lm ctx strc where
    run: "analyze ''XAGUSD'' ''4H'' ?cds None = Inr lm" and
    res: "resolve_layers ctx = Inr (layers lm)" and
    cds: "candles ctx = ?cds" and
    tr: "tr_structure (traces ctx) = Some strc"
    by (rule analyze_run [OF n ok, of "''XAGUSD''" "''4H''"]) blast
  let ?seg = "segment_by_indices ?cds 0 (base_end_idx (res_output strc))"
  have ne: "?seg \<noteq> []" by (rule segment_from_start) (simp add: idle_market_def)
  have "\<forall>cd \<in> set ?seg. v cd = 0"
    using set_segment_by_indices [of ?cds 0 "base_end_idx (res_output strc)"] idle_market_volume
    by blast
  then have zero: "sum_list (map v ?seg) = 0" by (rule sum_list_all_zero)
  from zero_volume_cost_basis [of ?seg ctx "layers lm" strc 0] res tr ne zero cds
  have "cost_basis (layers lm ! 0) = None" by (simp add: zones_nth_0)
  with run show ?thesis by blast
qed

section \<open>The stages of a run, one by one\<close>




section \<open>Markets at one price\<close>





lemma sort_by_vol_desc_single [simp]: "sort_by_vol_desc [n] = [n]"
  by (simp add: sort_by_vol_desc_def)





section \<open>The HVN refinement\<close>



lemma sort_by_vol_desc_set [simp]: "set (sort_by_vol_desc ns) = set ns"
  by (simp add: sort_by_vol_desc_def)












section \<open>Invariants of the layers\<close>





lemma resolve_layers_structure:
  "resolve_layers ctx = Inr lbs \<Longrightarrow> \<exists>strc. tr_structure (traces ctx) = Some strc"
  using build_layers_nth by (fastforce simp: resolve_layers_eq)









section \<open>Entry windows of inverted zones\<close>

text \<open>
  The early zone is \<open>(base_end, int(n * 0.55))\<close>. When the base ends after that bar the
  zone is inverted. \<open>_segment_by_indices\<close> returns the empty segment for it and the band is
  the empty-zone sentinel; \<open>entry_window\<close> has no such case: its scan over the empty range
  finds nothing, and the fallback places the start of the window after its end.
\<close>

lemma inverted_zone_window:
  "z1 < z0 \<Longrightarrow> find_longest_true_window msk z0 z1 = Inr (None, None, 0)"
  by (simp add: find_longest_true_window_def window_loop.simps)

lemma inverted_zone_entry_window:
  assumes inv: "snd z < fst z"
    and ew: "entry_window cds msk z = Inr (s, e, conf, ev)"
    and mono: "\<forall>i j. i < j \<and> j < length cds \<longrightarrow> ts (cds ! i) < ts (cds ! j)"
  shows "\<exists>a b. s = Some a \<and> e = Some b \<and> b < a"
proof -
  define ss where "ss = int (fst z) + int_mul_06 (int (snd z) - int (fst z))"
  from fallback_start_bounds(2) [OF inv] have b: "int (snd z) < ss" "ss \<le> int (fst z)"
    by (simp_all add: ss_def)
  from ew inverted_zone_window [OF inv, of msk] obtain cs ce where
    cs: "py_index cds ss = Inr cs" and ce: "py_nth cds (snd z) = Inr ce" and
    se: "s = Some (ts cs)" "e = Some (ts ce)"
    by (auto simp: entry_window_def Let_def ss_def bind_err_eq_Inr)
  from b have nonneg: "0 \<le> ss" by simp
  from cs nonneg have i: "nat ss < length cds" "cs = cds ! nat ss"
    by (auto simp: py_index_def Let_def split: if_splits)
  from ce have j: "ce = cds ! snd z" by (simp add: py_nth_eq_Inr)
  from b have "snd z < nat ss" by simp
  with mono i(1) have "ts (cds ! snd z) < ts (cds ! nat ss)" by blast
  with se i(2) j show ?thesis by simp
qed

lemma zones_nth_1: "zones n b ! Suc 0 = ((b, int_mul_055 n), 0.04)"
  by (simp add: zones_def)

text \<open>
  In every result of the resolver whose base ends after bar \<open>int(n * 0.55)\<close>, on candles
  with increasing timestamps, the entry window of layer 2 starts after it ends.
\<close>

lemma early_zone_inverted:
  assumes res: "resolve_layers ctx = Inr lbs"
    and tr: "tr_structure (traces ctx) = Some strc"
    and inv: "int_mul_055 (length (candles ctx)) < base_end_idx (res_output strc)"
    and mono: "\<forall>i j. i < j \<and> j < length (candles ctx) \<longrightarrow>
                 ts (candles ctx ! i) < ts (candles ctx ! j)"
  shows "\<exists>a b. entry_start_ts (lbs ! 1) = Some a \<and> entry_end_ts (lbs ! 1) = Some b \<and> b < a"
proof -
  let ?z = "(base_end_idx (res_output strc), int_mul_055 (length (candles ctx)))"
  have k: "(1::nat) < 5" by simp
  from resolve_layers_nth [OF res tr k] obtain s e wconf w_ev msk where
    ew: "entry_window (candles ctx) msk ?z = Inr (s, e, wconf, w_ev)" and
    f: "entry_start_ts (lbs ! 1) = s" "entry_end_ts (lbs ! 1) = e"
    by (simp add: zones_nth_1) metis
  have "snd ?z < fst ?z" using inv by simp
  from inverted_zone_entry_window [OF this ew mono] f show ?thesis by simp
qed

text \<open>
  A hundred hourly candles at the price 100, except that candle 90 closes at 101 with a
  high of 102: the first close above the level of a swing high.
\<close>

definition late_spike :: "nat \<Rightarrow> Candle list" where
  "late_spike n =
     map (\<lambda>i. \<lparr> ts = 3600 * int i, opn = 100, h = (if i = 90 then 102 else 100), l = 100,
                c = (if i = 90 then 101 else 100), v = 10 \<rparr>) [0..<n]"

lemma length_late_spike [simp]: "length (late_spike n) = n"
  by (simp add: late_spike_def)

lemma late_spike_nth:
  "i < n \<Longrightarrow> late_spike n ! i =
     \<lparr> ts = 3600 * int i, opn = 100, h = (if i = 90 then 102 else 100), l = 100,
       c = (if i = 90 then 101 else 100), v = 10 \<rparr>"
  by (simp add: late_spike_def)

lemma late_spike_lows: "lows (find_swings (late_spike 100) 3 3) = 3 # [4..<97]"
proof -
  have "is_lo (late_spike 100) 3 3 i" if "i \<in> set [3..<100 - 3]" for i
    using that by (auto simp: is_lo_iff late_spike_nth)
  then have "\<forall>i \<in> set [3..<100 - 3]. is_lo (late_spike 100) 3 3 i" by blast
  then have "filter (is_lo (late_spike 100) 3 3) [3..<100 - 3] = [3..<100 - 3]"
    by (rule filter_True)
  then show ?thesis by (simp add: find_swings_lows upt_conv_Cons)
qed

lemma late_spike_highs:
  "\<exists>rest. filter (\<lambda>hi. hi > 3) (highs (find_swings (late_spike 100) 3 3)) = 4 # rest"
proof -
  have a: "is_hi (late_spike 100) 3 3 4" by (auto simp: is_hi_iff late_spike_nth)
  have u: "[3..<100 - 3] = 3 # 4 # [5..<97]" by (simp add: upt_conv_Cons)
  show ?thesis unfolding find_swings_highs length_late_spike u using a by simp
qed

lemma late_spike_scan:
  "bos_scan (map c (late_spike 100)) (h (late_spike 100 ! 4))
     [4 + 1..<length (map c (late_spike 100))] = Some 90"
proof -
  have cl: "map c (late_spike 100) ! j = (if j = 90 then 101 else 100)" if "j < 100" for j
    using that by (simp add: late_spike_nth)
  have lev: "h (late_spike 100 ! 4) = 100" by (simp add: late_spike_nth)
  have least: "(LEAST j. 5 \<le> j \<and> j < 100 \<and> (100::real) < map c (late_spike 100) ! j) = 90"
  proof (rule Least_equality)
    show "5 \<le> (90::nat) \<and> (90::nat) < 100 \<and> (100::real) < map c (late_spike 100) ! 90"
      by (simp add: late_spike_nth)
    fix y :: nat
    assume y: "5 \<le> y \<and> y < 100 \<and> (100::real) < map c (late_spike 100) ! y"
    then have "y = 90" using cl [of y] by (simp split: if_splits)
    then show "90 \<le> y" by simp
  qed
  have ex: "\<exists>j. 5 \<le> j \<and> j < 100 \<and> (100::real) < map c (late_spike 100) ! j"
    by (rule exI [of _ 90]) (simp add: late_spike_nth)
  have "bos_scan (map c (late_spike 100)) 100 [5..<100] = Some 90"
    unfolding bos_scan_upt using ex least by simp
  then show ?thesis by (simp add: lev)
qed

lemma late_spike_base_end:
  "find_base_end (late_spike 100) (find_swings (late_spike 100) 3 3) = 90"
proof -
  obtain rest where f: "filter (\<lambda>hi. hi > 3) (highs (find_swings (late_spike 100) 3 3)) = 4 # rest"
    using late_spike_highs by blast
  then have ne: "highs (find_swings (late_spike 100) 3 3) \<noteq> []" by auto
  have "base_end_loop (late_spike 100) (map c (late_spike 100))
          (highs (find_swings (late_spike 100) 3 3)) (3 # [4..<97]) = Some 90"
    using f late_spike_scan by simp
  with ne show ?thesis by (simp add: find_base_end_def Let_def late_spike_lows)
qed

lemma late_spike_structure:
  "base_end_idx (res_output (StructureAgent_run
     \<lparr> ctx_symbol = sy, ctx_timeframe = tf, candles = late_spike 100,
       params = Map.empty, traces = empty_traces \<rparr>)) = 90"
  by (simp add: StructureAgent_run_def Let_def param_get_def late_spike_base_end)

lemma int_mul_055_100: "int_mul_055 100 = 55"
  by (simp add: int_mul_eval)

lemma int_mul_06_35: "int_mul_06 (- 35) = - 21"
  by (simp add: int_mul_eval)

text \<open>
  The run on these candles succeeds. The base ends at bar 90, the early zone is
  \<open>(90, 55)\<close>, and layer 2 comes back with the entry window from bar
  \<open>90 + int(-35 * 0.6) = 69\<close> to bar 55: it starts at 248400 and ends at 198000.
\<close>

theorem inverted_early_zone_entry_window:
  "(case analyze ''XAGUSD'' ''4H'' (late_spike 100) None of
      Inr lm \<Rightarrow> entry_start_ts (layers lm ! 1) = Some 248400 \<and>
                entry_end_ts (layers lm ! 1) = Some 198000
    | Inl e \<Rightarrow> False)"
proof -
  let ?cds = "late_spike 100"
  have n: "100 \<le> length ?cds" by simp
  have ok: "params_ok (case None of None \<Rightarrow> Map.empty | Some p \<Rightarrow> p)"
    by (simp add: params_ok_empty)
  obtain lm ctx where
    run: "analyze ''XAGUSD'' ''4H'' ?cds None = Inr lm" and
    res: "resolve_layers ctx = Inr (layers lm)" and
    cds: "candles ctx = ?cds" and
    tr: "tr_structure (traces ctx) =
       Some (StructureAgent_run \<lparr> ctx_symbol = ''XAGUSD'', ctx_timeframe = ''4H'',
                                  candles = ?cds,
                                  params = (case None of None \<Rightarrow> Map.empty | Some p \<Rightarrow> p),
                                  traces = empty_traces \<rparr>)"
    by (rule analyze_run [OF n ok, of "''XAGUSD''" "''4H''"])
  have k: "(1::nat) < 5" by simp
  from resolve_layers_nth [OF res tr k] obtain s e wconf w_ev msk where
    ew: "entry_window ?cds msk (90, 55) = Inr (s, e, wconf, w_ev)" and
    f: "entry_start_ts (layers lm ! 1) = s" "entry_end_ts (layers lm ! 1) = e"
    unfolding cds by (simp add: zones_nth_1 late_spike_structure int_mul_055_100) metis
  have w: "find_longest_true_window msk 90 55 = Inr (None, None, 0)"
    by (rule inverted_zone_window) simp
  have "entry_window ?cds msk (90, 55) =
          Inr (Some (ts (?cds ! 69)), Some (ts (?cds ! 55)), 0.35, [FallbackWindow 69 55])"
    by (simp add: entry_window_def w Let_def int_mul_06_35 py_index_def py_nth_def)
  with ew have "s = Some (ts (?cds ! 69))" "e = Some (ts (?cds ! 55))" by simp_all
  then have "s = Some 248400" "e = Some 198000" by (simp_all add: late_spike_nth)
  with f run show ?thesis by simp
qed

section \<open>The resolver without candles\<close>

text \<open>
  On an empty candle list every entry window raises: the scan reads the mask or the
  fallback reads the candles, both out of range. The resolver therefore never returns.
\<close>

lemma entry_window_no_candles: "entry_window [] msk z \<noteq> Inr w"
  by (auto simp: entry_window_def bind_err_eq_Inr py_index_def py_nth_def Let_def
           split: option.splits)

lemma resolve_layers_no_candles: "candles ctx = [] \<Longrightarrow> resolve_layers ctx \<noteq> Inr lbs"
proof
  assume e: "candles ctx = []" and r: "resolve_layers ctx = Inr lbs"
  from r obtain strc where t: "tr_structure (traces ctx) = Some strc"
    using resolve_layers_structure by blast
  have k: "(0::nat) < 5" by simp
  from resolve_layers_nth [OF r t k] obtain msk z w where
    "entry_window (candles ctx) msk z = Inr w" by metis
  with e entry_window_no_candles show False by simp
qed

end
